theory Spec2Isabelle
  imports Main
begin

section \<open>The sequencer of packages/utils/src/promise/sequence.ts\<close>

text \<open>
  The class \<^verbatim>\<open>Sequence\<close> runs a list of step functions one at a time. Its methods are
  synchronous mutations of the instance; everything asynchronous goes through the host's
  job queues (promise reactions, \<^verbatim>\<open>process.nextTick\<close>, \<^verbatim>\<open>setTimeout\<close>). The embedding
  keeps the instance fields and the job queues in one record, \<open>world\<close>, and turns every
  callback the class hands to the host into a constructor of \<open>task\<close>; \<open>tick\<close> runs one job
  the way the host's event loop does (promise jobs first, then the earliest timer).
\<close>

subsection \<open>Values, result records, steps\<close>

datatype jsval = Undefined | Num int | Str string | Bool bool

text \<open>\<^verbatim>\<open>interface SequenceResult { status, index, value?, reason?, time }\<close>\<close>

record SequenceResult =
  r_status :: nat
  r_index :: int
  r_value :: "jsval option"
  r_reason :: "jsval option"
  r_time :: nat

definition SUCCEEDED :: nat where "SUCCEEDED = 1"
definition FAILED :: nat where "FAILED = 0"

text \<open>
  What a call of a step function does: it returns a plain value, throws, or returns an
  awaitable. \<open>Awaitable d s\<close> is an awaitable that settles as \<open>s\<close> after \<open>d\<close> milliseconds
  (\<open>d = 0\<close>: it is settled already, as \<^verbatim>\<open>Promise.reject('x')\<close> is); \<open>Forever\<close> never settles.
\<close>

datatype settle = Fulfil jsval | RejectWith jsval

datatype outcome = Returns jsval | Throws jsval | Awaitable nat settle | Forever

text \<open>\<^verbatim>\<open>type SequenceStep = (prevResult?, index?, results?) => any\<close>\<close>

type_synonym SequenceStep = "SequenceResult option \<Rightarrow> int \<Rightarrow> SequenceResult list \<Rightarrow> outcome"

datatype SequenceError = SequenceError (errno: nat) (errmsg: string)

subsection \<open>Events, listeners and the calls a listener or a caller can make\<close>

datatype evname = OnSuccess | OnFailed | OnEnd

datatype event =
    Success SequenceResult int
  | Failed SequenceResult int
  | End "SequenceResult list"

fun name_of :: "event \<Rightarrow> evname" where
  "name_of (Success r i) = OnSuccess"
| "name_of (Failed r i) = OnFailed"
| "name_of (End rs) = OnEnd"

datatype append_arg = One SequenceStep | Many "SequenceStep list"

text \<open>
  A listener is a closure over the instance; what it does is a list of calls on the
  instance, computed from the event it receives. The last three calls are the
  \<^verbatim>\<open>resolve\<close>/\<^verbatim>\<open>reject\<close> of the promise the static combinators return. Listeners are
  registered with \<open>on\<close> by the code that owns the instance; a listener does not register
  further listeners.
\<close>

datatype action =
    Append append_arg
  | Go "int option"
  | Clear
  | Next bool
  | Run
  | Stop
  | Suspend "nat option"
  | Resolve "SequenceResult list"
  | ResolveResults
  | RejectResults

type_synonym listener = "event \<Rightarrow> action list"

subsection \<open>Jobs, promises, the world\<close>

text \<open>
  One constructor per callback of the source:
  \<^item> \<open>EmitEnd\<close>: \<^verbatim>\<open>() => this.emit('end', this.results, this)\<close> (lines 138-142, 198);
  \<^item> \<open>AutoRun\<close>: \<^verbatim>\<open>() => this.run()\<close> (line 130);
  \<^item> \<open>StepTask q\<close>: the callback of \<^verbatim>\<open>this.promise.then\<close> (lines 214-226), \<open>q\<close> the promise
    that \<^verbatim>\<open>then\<close> returned;
  \<^item> \<open>Settled q s\<close>: the \<^verbatim>\<open>.then(value)\<close> / \<^verbatim>\<open>.catch(reason)\<close> pair (lines 227-248), run
    when the step's awaitable settles as \<open>s\<close>;
  \<^item> \<open>Finish q r\<close>: the last \<^verbatim>\<open>.then(result)\<close> (lines 249-261);
  \<^item> \<open>Advance\<close>: \<^verbatim>\<open>() => { this.running && this.next(true) }\<close> (lines 256-258);
  \<^item> \<open>Resume\<close>: the callback of \<^verbatim>\<open>suspend\<close> (lines 293-296);
  \<^item> \<open>External a\<close>: a call by the code that owns the instance, made from a timer of its own.
\<close>

datatype task =
    EmitEnd
  | AutoRun
  | StepTask nat
  | Settled nat settle
  | Finish nat SequenceResult
  | Advance
  | Resume
  | External action

datatype pstate = Pending | Fulfilled "SequenceResult option" | Rejected jsval

datatype next_ret = RejectedWith SequenceError | ResolvedUndefined | ChainPromise nat

datatype fstate = FPending | FResolved "SequenceResult list" | FRejected "SequenceResult list"

datatype obs = Invoked int | Emitted event

datatype runtime = HasNextTick | HasSetImmediate | OnlySetTimeout

record world =
  running :: bool
  suspended :: bool
  suspendTimeout :: "nat option"
  muteEndIfEmpty :: bool
  interval :: nat
  promises :: "nat list"
  results :: "SequenceResult list"
  index :: int
  steps :: "SequenceStep list"
  busy :: bool
  promise :: nat
  listeners :: "(evname \<times> listener) list"
  env :: runtime
  pstore :: "nat \<Rightarrow> pstate"
  next_pid :: nat
  microtasks :: "task list"
  waiting :: "(nat \<times> task) list"
  timers :: "(nat \<times> nat \<times> task) list"
  next_tid :: nat
  now :: nat
  console :: "string list"
  trace :: "obs list"
  future :: fstate

subsection \<open>The host: timers and promise jobs\<close>

fun insert_timer :: "nat \<times> nat \<times> task \<Rightarrow> (nat \<times> nat \<times> task) list \<Rightarrow> (nat \<times> nat \<times> task) list" where
  "insert_timer e [] = [e]"
| "insert_timer e (x # xs) = (if fst e < fst x then e # x # xs else x # insert_timer e xs)"

text \<open>\<^verbatim>\<open>setTimeout(t, d)\<close>; the identifier it returns is \<open>next_tid\<close> of the world it is called in.\<close>

definition setTimeout :: "task \<Rightarrow> nat \<Rightarrow> world \<Rightarrow> world" where
  "setTimeout t d w =
     w\<lparr>timers := insert_timer (now w + d, next_tid w, t) (timers w), next_tid := Suc (next_tid w)\<rparr>"

definition clearTimeout :: "nat \<Rightarrow> world \<Rightarrow> world" where
  "clearTimeout i w = w\<lparr>timers := filter (\<lambda>e. fst (snd e) \<noteq> i) (timers w)\<rparr>"

definition enqueue_micro :: "task \<Rightarrow> world \<Rightarrow> world" where
  "enqueue_micro t w = w\<lparr>microtasks := microtasks w @ [t]\<rparr>"

text \<open>Fulfilling a promise releases the reactions that wait for it.\<close>

definition fulfil :: "nat \<Rightarrow> SequenceResult option \<Rightarrow> world \<Rightarrow> world" where
  "fulfil q v w =
     w\<lparr>pstore := (pstore w)(q := Fulfilled v),
       microtasks := microtasks w @ map snd (filter (\<lambda>e. fst e = q) (waiting w)),
       waiting := filter (\<lambda>e. fst e \<noteq> q) (waiting w)\<rparr>"

subsection \<open>The instance methods\<close>

text \<open>\<^verbatim>\<open>this.steps[this.index]\<close>: \<^verbatim>\<open>undefined\<close> outside the array, also for a negative index.\<close>

definition nth_step :: "SequenceStep list \<Rightarrow> int \<Rightarrow> SequenceStep option" where
  "nth_step ss i = (if 0 \<le> i \<and> i < int (length ss) then Some (ss ! nat i) else None)"

definition step_at :: "world \<Rightarrow> SequenceStep option" where
  "step_at w = nth_step (steps w) (index w)"

text \<open>\<^verbatim>\<open>this.results[this.results.length - 1]\<close>\<close>

definition last_result :: "world \<Rightarrow> SequenceResult option" where
  "last_result w = (if results w = [] then None else Some (last (results w)))"

text \<open>\<^verbatim>\<open>Sequence.createConfig()\<close> assigned onto the instance (constructor and \<^verbatim>\<open>clear\<close>).\<close>

definition createConfig :: "world \<Rightarrow> world" where
  "createConfig w =
     w\<lparr>promises := [], results := [], index := 0, steps := [], busy := False,
       promise := next_pid w,
       pstore := (pstore w)(next_pid w := Fulfilled None),
       next_pid := Suc (next_pid w)\<rparr>"

text \<open>\<^verbatim>\<open>this.promise = this.promise.then(callback)\<close>, the new promise being \<open>q\<close>.\<close>

definition then_step :: "nat \<Rightarrow> world \<Rightarrow> world" where
  "then_step q w =
     (let w1 = w\<lparr>pstore := (pstore w)(q := Pending), next_pid := Suc q, promise := q\<rparr>
      in case pstore w (promise w) of
           Fulfilled v \<Rightarrow> enqueue_micro (StepTask q) w1
         | Pending \<Rightarrow> w1\<lparr>waiting := waiting w1 @ [(promise w, StepTask q)]\<rparr>
         | Rejected e \<Rightarrow> w1\<lparr>pstore := (pstore w1)(q := Rejected e)\<rparr>)"

definition "next" :: "bool \<Rightarrow> world \<Rightarrow> world \<times> next_ret" where
  "next inner w =
     (if \<not> inner \<and> running w then
        (w\<lparr>console := console w @ [''Please do not call next() while the sequence is running.'']\<rparr>,
         RejectedWith (SequenceError 2 ''Cannot call next during the sequence is running.''))
      else if busy w \<or> suspended w then (w, ChainPromise (promise w))
      else if steps w = [] then
        ((if \<not> muteEndIfEmpty w then setTimeout EmitEnd 0 w else w), ResolvedUndefined)
      else if step_at w = None then (w, RejectedWith (SequenceError 1 ''no more steps.''))
      else (then_step (next_pid w) (w\<lparr>busy := True\<rparr>), ChainPromise (next_pid w)))"

definition append_steps :: "append_arg \<Rightarrow> world \<Rightarrow> world" where
  "append_steps a w =
     (let dead = (index w \<ge> int (length (steps w)));
          w1 = (case a of One f \<Rightarrow> w\<lparr>steps := steps w @ [f]\<rparr> | Many fs \<Rightarrow> w\<lparr>steps := steps w @ fs\<rparr>)
      in if running w1 \<and> dead then fst (next True w1) else w1)"

definition go :: "int option \<Rightarrow> world \<Rightarrow> world" where
  "go n w = (case n of None \<Rightarrow> w | Some k \<Rightarrow> w\<lparr>index := min k (int (length (steps w)))\<rparr>)"

definition clear :: "world \<Rightarrow> world" where
  "clear w = createConfig w"

definition run :: "world \<Rightarrow> world" where
  "run w = (if running w then w else fst (next True (w\<lparr>running := True\<rparr>)))"

definition stop :: "world \<Rightarrow> world" where
  "stop w =
     (let w1 = w\<lparr>running := False\<rparr>;
          w2 = (case suspendTimeout w1 of None \<Rightarrow> w1
                | Some i \<Rightarrow> (clearTimeout i w1)\<lparr>suspendTimeout := None\<rparr>)
      in w2\<lparr>suspended := False\<rparr>)"

definition suspend :: "nat option \<Rightarrow> world \<Rightarrow> world" where
  "suspend duration w =
     (let d = (case duration of None \<Rightarrow> 1000 | Some n \<Rightarrow> n);
          w1 = w\<lparr>suspended := True\<rparr>;
          w2 = (case suspendTimeout w1 of None \<Rightarrow> w1 | Some i \<Rightarrow> clearTimeout i w1)
      in (setTimeout Resume d w2)\<lparr>suspendTimeout := Some (next_tid w2)\<rparr>)"

text \<open>\<^verbatim>\<open>EventEmitter.on\<close>\<close>

definition on :: "evname \<Rightarrow> listener \<Rightarrow> world \<Rightarrow> world" where
  "on n l w = w\<lparr>listeners := listeners w @ [(n, l)]\<rparr>"

text \<open>A promise settles once: later calls of \<^verbatim>\<open>resolve\<close> and \<^verbatim>\<open>reject\<close> do nothing.\<close>

definition settle_future :: "fstate \<Rightarrow> world \<Rightarrow> world" where
  "settle_future f w = (if future w = FPending then w\<lparr>future := f\<rparr> else w)"

fun apply_action :: "action \<Rightarrow> world \<Rightarrow> world" where
  "apply_action (Append a) w = append_steps a w"
| "apply_action (Go n) w = go n w"
| "apply_action Clear w = clear w"
| "apply_action (Next b) w = fst (next b w)"
| "apply_action Run w = run w"
| "apply_action Stop w = stop w"
| "apply_action (Suspend d) w = suspend d w"
| "apply_action (Resolve rs) w = settle_future (FResolved rs) w"
| "apply_action ResolveResults w = settle_future (FResolved (results w)) w"
| "apply_action RejectResults w = settle_future (FRejected (results w)) w"

definition apply_actions :: "action list \<Rightarrow> world \<Rightarrow> world" where
  "apply_actions as w = foldl (\<lambda>w a. apply_action a w) w as"

text \<open>
  \<^verbatim>\<open>EventEmitter.emit\<close>: the listeners registered for the event's name, in the order of
  registration, each called with the event.
\<close>

definition reactions :: "event \<Rightarrow> world \<Rightarrow> action list" where
  "reactions ev w = concat (map (\<lambda>e. snd e ev) (filter (\<lambda>e. fst e = name_of ev) (listeners w)))"

definition emit :: "event \<Rightarrow> world \<Rightarrow> world" where
  "emit ev w = apply_actions (reactions ev w) (w\<lparr>trace := trace w @ [Emitted ev]\<rparr>)"

subsection \<open>The callbacks\<close>

text \<open>Lines 214-226: call the step at the cursor and turn what it does into an awaitable.\<close>

definition invoke :: "nat \<Rightarrow> world \<Rightarrow> world" where
  "invoke q w =
     (case step_at w of
        None \<Rightarrow> enqueue_micro (Settled q (Fulfil Undefined)) w
      | Some f \<Rightarrow>
          (let w1 = w\<lparr>trace := trace w @ [Invoked (index w)]\<rparr>
           in case f (last_result w) (index w) (results w) of
                Returns v \<Rightarrow> enqueue_micro (Settled q (Fulfil v)) w1
              | Throws e \<Rightarrow> enqueue_micro (Settled q (RejectWith e)) w1
              | Awaitable d s \<Rightarrow>
                  (if d = 0 then enqueue_micro (Settled q s) w1 else setTimeout (Settled q s) d w1)
              | Forever \<Rightarrow> w1))"

text \<open>
  Lines 227-248: the \<^verbatim>\<open>.then(value)\<close> handler for a fulfilled awaitable, the
  \<^verbatim>\<open>.catch(reason)\<close> handler for a rejected one. Both build the record, push it, emit the
  per-step event and return the record to the last handler.
\<close>

definition result_of :: "settle \<Rightarrow> int \<Rightarrow> nat \<Rightarrow> SequenceResult" where
  "result_of s i t =
     (case s of
        Fulfil v \<Rightarrow>
          \<lparr>r_status = SUCCEEDED, r_index = i, r_value = Some v, r_reason = None, r_time = t\<rparr>
      | RejectWith e \<Rightarrow>
          \<lparr>r_status = FAILED, r_index = i, r_value = None, r_reason = Some e, r_time = t\<rparr>)"

definition event_of :: "settle \<Rightarrow> SequenceResult \<Rightarrow> int \<Rightarrow> event" where
  "event_of s r i = (case s of Fulfil v \<Rightarrow> Success r i | RejectWith e \<Rightarrow> Failed r i)"

definition settled :: "nat \<Rightarrow> settle \<Rightarrow> world \<Rightarrow> world" where
  "settled q s w =
     (let r = result_of s (index w) (now w)
      in enqueue_micro (Finish q r)
           (emit (event_of s r (index w)) (w\<lparr>results := results w @ [r]\<rparr>)))"

text \<open>Lines 249-261.\<close>

definition finish :: "nat \<Rightarrow> SequenceResult \<Rightarrow> world \<Rightarrow> world" where
  "finish q r w =
     (let w1 = w\<lparr>index := index w + 1, busy := False\<rparr>;
          w2 = (if step_at w1 = None then emit (End (results w1)) w1
                else setTimeout Advance (interval w1) w1)
      in fulfil q (Some r) w2)"

definition advance :: "world \<Rightarrow> world" where
  "advance w = (if running w then fst (next True w) else w)"

definition resume :: "world \<Rightarrow> world" where
  "resume w = advance (w\<lparr>suspended := False\<rparr>)"

fun exec :: "task \<Rightarrow> world \<Rightarrow> world" where
  "exec EmitEnd w = emit (End (results w)) w"
| "exec AutoRun w = run w"
| "exec (StepTask q) w = invoke q w"
| "exec (Settled q s) w = settled q s w"
| "exec (Finish q r) w = finish q r w"
| "exec Advance w = advance w"
| "exec Resume w = resume w"
| "exec (External a) w = apply_action a w"

subsection \<open>The event loop\<close>

definition idle :: "world \<Rightarrow> bool" where
  "idle w = (microtasks w = [] \<and> timers w = [])"

definition tick :: "world \<Rightarrow> world" where
  "tick w =
     (case microtasks w of
        t # ts \<Rightarrow> exec t (w\<lparr>microtasks := ts\<rparr>)
      | [] \<Rightarrow>
          (case timers w of
             [] \<Rightarrow> w
           | e # es \<Rightarrow> exec (snd (snd e)) (w\<lparr>timers := es, now := max (now w) (fst e)\<rparr>)))"

fun event_loop :: "nat \<Rightarrow> world \<Rightarrow> world option" where
  "event_loop 0 w = (if idle w then Some w else None)"
| "event_loop (Suc n) w = (if idle w then Some w else event_loop n (tick w))"

subsection \<open>Construction and the static combinators\<close>

record SequenceOptions =
  opt_emitEndIfEmpty :: "bool option"
  opt_interval :: "nat option"
  opt_autoRun :: "bool option"
  opt_muteEndIfEmpty :: "bool option"

definition default_options :: SequenceOptions where
  "default_options =
     \<lparr>opt_emitEndIfEmpty = None, opt_interval = None, opt_autoRun = None, opt_muteEndIfEmpty = None\<rparr>"

text \<open>The field initialisers of the class (lines 78-87).\<close>

definition blank :: "runtime \<Rightarrow> world" where
  "blank rt =
     \<lparr>running = False, suspended = False, suspendTimeout = None, muteEndIfEmpty = False,
      interval = 0, promises = [], results = [], index = 0, steps = [], busy = False,
      promise = 0, listeners = [], env = rt, pstore = (\<lambda>_. Pending)(0 := Fulfilled None),
      next_pid = 1, microtasks = [], waiting = [], timers = [], next_tid = 0, now = 0,
      console = [], trace = [], future = FPending\<rparr>"

text \<open>
  Lines 136-144. \<^verbatim>\<open>process.nextTick\<close> jobs run before any timer, as promise jobs do;
  \<^verbatim>\<open>setImmediate\<close> is taken as a timer of delay 0.
\<close>

definition scheduleEndEvent :: "world \<Rightarrow> world" where
  "scheduleEndEvent w =
     (case env w of
        HasNextTick \<Rightarrow> enqueue_micro EmitEnd w
      | HasSetImmediate \<Rightarrow> setTimeout EmitEnd 0 w
      | OnlySetTimeout \<Rightarrow> setTimeout EmitEnd 0 w)"

definition construct :: "runtime \<Rightarrow> SequenceStep list \<Rightarrow> SequenceOptions \<Rightarrow> world" where
  "construct rt ss opts =
     (let w0 = createConfig
                 ((blank rt)\<lparr>running := False, suspended := False, suspendTimeout := None,
                    muteEndIfEmpty := (opt_emitEndIfEmpty opts = Some True),
                    interval := (case opt_interval opts of None \<Rightarrow> 0 | Some n \<Rightarrow> n)\<rparr>);
          w1 = (if ss \<noteq> [] then append_steps (Many ss) w0
                else if \<not> muteEndIfEmpty w0 then scheduleEndEvent w0
                else w0)
      in if opt_autoRun opts \<noteq> Some False then setTimeout AutoRun 0 w1 else w1)"

datatype started = Immediate fstate | Started world

definition combinator_options :: "nat option \<Rightarrow> SequenceOptions" where
  "combinator_options ival =
     \<lparr>opt_emitEndIfEmpty = None, opt_interval = ival, opt_autoRun = None, opt_muteEndIfEmpty = Some True\<rparr>"

definition "all" :: "runtime \<Rightarrow> SequenceStep list \<Rightarrow> nat option \<Rightarrow> action list \<Rightarrow> started" where
  "all rt ss ival cb =
     (if ss = [] then Immediate (FResolved [])
      else Started
        (on OnFailed (\<lambda>ev. [Stop, RejectResults])
          (on OnEnd (\<lambda>ev. case ev of End rs \<Rightarrow> [Resolve rs] | _ \<Rightarrow> [])
            (apply_actions cb (construct rt ss (combinator_options ival))))))"

definition chain :: "runtime \<Rightarrow> SequenceStep list \<Rightarrow> nat option \<Rightarrow> action list \<Rightarrow> started" where
  "chain rt ss ival cb =
     (if ss = [] then Immediate (FResolved [])
      else Started
        (on OnEnd (\<lambda>ev. case ev of End rs \<Rightarrow> [Resolve rs] | _ \<Rightarrow> [])
          (apply_actions cb (construct rt ss (combinator_options ival)))))"

definition "any" :: "runtime \<Rightarrow> SequenceStep list \<Rightarrow> nat option \<Rightarrow> action list \<Rightarrow> started" where
  "any rt ss ival cb =
     (if ss = [] then Immediate (FRejected [])
      else Started
        (on OnEnd (\<lambda>ev. [RejectResults])
          (on OnSuccess (\<lambda>ev. [ResolveResults, Stop])
            (apply_actions cb (construct rt ss (combinator_options ival))))))"

section \<open>Predicates and example inputs used by the theorems\<close>

definition ok_step :: "jsval \<Rightarrow> SequenceStep" where
  "ok_step v = (\<lambda>p i rs. Returns v)"

definition throwing_step :: "jsval \<Rightarrow> SequenceStep" where
  "throwing_step e = (\<lambda>p i rs. Throws e)"

definition rejecting_step :: "nat \<Rightarrow> jsval \<Rightarrow> SequenceStep" where
  "rejecting_step d e = (\<lambda>p i rs. Awaitable d (RejectWith e))"

definition slow_step :: "nat \<Rightarrow> jsval \<Rightarrow> SequenceStep" where
  "slow_step d v = (\<lambda>p i rs. Awaitable d (Fulfil v))"

text \<open>
  The timer bookkeeping of \<^verbatim>\<open>suspend\<close>: a pending \<open>Resume\<close> timer is the one whose identifier
  \<^verbatim>\<open>suspendTimeout\<close> holds.
\<close>

definition resume_tracked :: "world \<Rightarrow> bool" where
  "resume_tracked w =
     list_all (\<lambda>e. snd (snd e) = Resume \<longrightarrow> suspendTimeout w = Some (fst (snd e))) (timers w)"

definition pending_timer_tasks :: "world \<Rightarrow> task list" where
  "pending_timer_tasks w = map (\<lambda>e. snd (snd e)) (timers w)"

text \<open>The steps an argument of \<^verbatim>\<open>append\<close> stands for: one function, or the elements of an array.\<close>

definition arg_steps :: "append_arg \<Rightarrow> SequenceStep list" where
  "arg_steps a = (case a of One f \<Rightarrow> [f] | Many fs \<Rightarrow> fs)"


text \<open>A fresh instance with one step, suspended for 50 ms right after construction.\<close>

definition suspended_example :: world where
  "suspended_example =
     suspend (Some 50) (construct HasNextTick [ok_step (Str ''a'')] default_options)"



text \<open>
  An instance of two steps, the first taking 10 ms, after its auto-run timer and the call of
  the first step: that step is in flight. And the same instance with a call of \<^verbatim>\<open>stop()\<close>
  by its owner scheduled at 5 ms.
\<close>

definition in_flight_example :: world where
  "in_flight_example =
     (tick ^^ 2)
       (construct HasNextTick [slow_step 10 (Str ''x''), ok_step (Str ''y'')] default_options)"

definition stopped_in_flight :: world where
  "stopped_in_flight =
     setTimeout (External Stop) 5
       (construct HasNextTick [slow_step 10 (Str ''x''), ok_step (Str ''y'')] default_options)"

subsection \<open>Undisturbed runs\<close>

text \<open>When and how the awaitable of a step settles, if it does.\<close>

definition settles :: "outcome \<Rightarrow> (nat \<times> settle) option" where
  "settles out =
     (case out of Returns v \<Rightarrow> Some (0, Fulfil v) | Throws e \<Rightarrow> Some (0, RejectWith e)
      | Awaitable d s \<Rightarrow> Some (d, s) | Forever \<Rightarrow> None)"

fun inert :: "action \<Rightarrow> bool" where
  "inert Stop = True"
| "inert (Resolve rs) = True"
| "inert ResolveResults = True"
| "inert RejectResults = True"
| "inert _ = False"

definition inert_listeners :: "world \<Rightarrow> bool" where
  "inert_listeners w = (\<forall>e \<in> set (listeners w). \<forall>ev. list_all inert (snd e ev))"

fun react1 :: "action \<Rightarrow> SequenceResult list \<Rightarrow> bool \<times> fstate \<Rightarrow> bool \<times> fstate" where
  "react1 Stop rs (b, f) = (False, f)"
| "react1 (Resolve x) rs (b, f) = (b, if f = FPending then FResolved x else f)"
| "react1 ResolveResults rs (b, f) = (b, if f = FPending then FResolved rs else f)"
| "react1 RejectResults rs (b, f) = (b, if f = FPending then FRejected rs else f)"
| "react1 _ rs (b, f) = (b, f)"

definition react :: "action list \<Rightarrow> SequenceResult list \<Rightarrow> bool \<times> fstate \<Rightarrow> bool \<times> fstate" where
  "react as rs bf = foldl (\<lambda>bf a. react1 a rs bf) bf as"

definition poised :: "world \<Rightarrow> bool" where
  "poised w =
     (busy w \<and> running w \<and> \<not> suspended w \<and> suspendTimeout w = None
      \<and> microtasks w = [StepTask (promise w)] \<and> timers w = [] \<and> waiting w = [])"

definition always_settles :: "(settle \<Rightarrow> bool) \<Rightarrow> SequenceStep \<Rightarrow> bool" where
  "always_settles P f =
     (\<forall>p i rs. case settles (f p i rs) of None \<Rightarrow> False | Some ds \<Rightarrow> P (snd ds))"

fun fulfils :: "settle \<Rightarrow> bool" where
  "fulfils (Fulfil v) = True"
| "fulfils (RejectWith e) = False"

fun rejects :: "settle \<Rightarrow> bool" where
  "rejects (Fulfil v) = False"
| "rejects (RejectWith e) = True"

definition quiet_on :: "world \<Rightarrow> (settle \<Rightarrow> bool) \<Rightarrow> bool" where
  "quiet_on w P =
     (\<forall>s r i rs f. P s \<longrightarrow> react (reactions (event_of s r i) w) rs (True, f) = (True, f))"

definition stops_on :: "world \<Rightarrow> (settle \<Rightarrow> bool) \<Rightarrow> (SequenceResult list \<Rightarrow> fstate) \<Rightarrow> bool" where
  "stops_on w P F =
     (\<forall>s r i rs. P s \<longrightarrow> react (reactions (event_of s r i) w) rs (True, FPending) = (False, F rs))"

definition end_ignored :: "world \<Rightarrow> bool" where
  "end_ignored w =
     (\<forall>rs rs' b f. f \<noteq> FPending \<longrightarrow> react (reactions (End rs) w) rs' (b, f) = (b, f))"

text \<open>The listeners that \<^verbatim>\<open>Sequence.all\<close> and \<^verbatim>\<open>Sequence.any\<close> register.\<close>

definition all_listeners :: "(evname \<times> listener) list" where
  "all_listeners =
     [(OnEnd, \<lambda>ev. case ev of End rs \<Rightarrow> [Resolve rs] | _ \<Rightarrow> []),
      (OnFailed, \<lambda>ev. [Stop, RejectResults])]"

definition any_listeners :: "(evname \<times> listener) list" where
  "any_listeners = [(OnSuccess, \<lambda>ev. [ResolveResults, Stop]), (OnEnd, \<lambda>ev. [RejectResults])]"

text \<open>The world a combinator starts from, and the world after its auto-run timer.\<close>

definition fresh_run :: "world \<Rightarrow> SequenceStep list \<Rightarrow> (evname \<times> listener) list \<Rightarrow> bool" where
  "fresh_run w ss ls =
     (poised w \<and> listeners w = ls \<and> steps w = ss \<and> index w = 0 \<and> results w = []
      \<and> trace w = [] \<and> future w = FPending)"

subsection \<open>Reachable worlds and their invariant\<close>

text \<open>Calls that do not touch the cursor or the history: all but \<^verbatim>\<open>go\<close> and \<^verbatim>\<open>clear\<close>.\<close>

fun calm :: "action \<Rightarrow> bool" where
  "calm (Go n) = False"
| "calm Clear = False"
| "calm _ = True"

definition calm_listeners :: "world \<Rightarrow> bool" where
  "calm_listeners w = (\<forall>e \<in> set (listeners w). \<forall>ev. list_all calm (snd e ev))"

text \<open>
  The worlds an instance can be in: it is constructed; its owner registers listeners that
  make calm calls only; the event loop runs a job; the owner makes a calm call between two
  jobs, or calls \<^verbatim>\<open>clear()\<close> while the instance is not busy.
\<close>

inductive reachable :: "world \<Rightarrow> bool" where
  constructed: "reachable (construct rt ss opts)"
| listening: "reachable w \<Longrightarrow> \<forall>ev. list_all calm (l ev) \<Longrightarrow> reachable (on n l w)"
| job: "reachable w \<Longrightarrow> reachable (tick w)"
| call: "reachable w \<Longrightarrow> calm a \<Longrightarrow> reachable (apply_action a w)"
| cleared: "reachable w \<Longrightarrow> \<not> busy w \<Longrightarrow> reachable (clear w)"

text \<open>The jobs of a step: before its record is pushed, and after.\<close>

fun is_pre :: "task \<Rightarrow> bool" where
  "is_pre (StepTask q) = True"
| "is_pre (Settled q s) = True"
| "is_pre _ = False"

fun is_post :: "task \<Rightarrow> bool" where
  "is_post (Finish q r) = True"
| "is_post _ = False"

fun is_external :: "task \<Rightarrow> bool" where
  "is_external (External a) = True"
| "is_external _ = False"

definition count_jobs :: "(task \<Rightarrow> bool) \<Rightarrow> world \<Rightarrow> nat" where
  "count_jobs P w =
     length (filter P (microtasks w)) + length (filter (\<lambda>e. P (snd (snd e))) (timers w))
     + length (filter (\<lambda>e. P (snd e)) (waiting w))"

definition shape :: "world \<Rightarrow> bool" where
  "shape w =
     (if busy w then
        (count_jobs is_pre w \<le> 1 \<and> count_jobs is_post w = 0
           \<and> int (length (results w)) = index w)
        \<or> (count_jobs is_pre w = 0 \<and> count_jobs is_post w = 1
           \<and> int (length (results w)) = index w + 1)
      else count_jobs is_pre w = 0 \<and> count_jobs is_post w = 0
           \<and> int (length (results w)) = index w)"

definition tids_ok :: "world \<Rightarrow> bool" where
  "tids_ok w =
     ((\<forall>e \<in> set (timers w). fst (snd e) < next_tid w)
      \<and> (case suspendTimeout w of None \<Rightarrow> True
          | Some i \<Rightarrow> i < next_tid w
              \<and> (\<forall>e \<in> set (timers w). fst (snd e) = i \<longrightarrow> snd (snd e) = Resume)))"

definition consistent :: "world \<Rightarrow> bool" where
  "consistent w = (shape w \<and> tids_ok w \<and> calm_listeners w \<and> count_jobs is_external w = 0)"

text \<open>What a calm call made in world \<open>w\<close> can have led to.\<close>

definition steady :: "world \<Rightarrow> world \<Rightarrow> bool" where
  "steady w w' =
     (results w' = results w \<and> index w' = index w \<and> listeners w' = listeners w
      \<and> count_jobs is_post w' = count_jobs is_post w
      \<and> count_jobs is_external w' = count_jobs is_external w
      \<and> tids_ok w'
      \<and> ((busy w' = busy w \<and> count_jobs is_pre w' = count_jobs is_pre w)
          \<or> (\<not> busy w \<and> busy w' \<and> count_jobs is_pre w' \<le> count_jobs is_pre w + 1)))"

text \<open>The world a job finds when the event loop has taken it off its queue.\<close>

definition ready :: "task \<Rightarrow> world \<Rightarrow> bool" where
  "ready t w =
     (tids_ok w \<and> calm_listeners w \<and> count_jobs is_external w = 0 \<and> \<not> is_external t
      \<and> (if is_pre t then
            busy w \<and> count_jobs is_pre w = 0 \<and> count_jobs is_post w = 0
            \<and> int (length (results w)) = index w
          else if is_post t then
            busy w \<and> count_jobs is_pre w = 0 \<and> count_jobs is_post w = 0
            \<and> int (length (results w)) = index w + 1
          else shape w))"

section \<open>Theorems\<close>

lemmas host_defs = setTimeout_def clearTimeout_def enqueue_micro_def fulfil_def

lemmas method_defs = nth_step_def step_at_def last_result_def createConfig_def then_step_def next_def
  append_steps_def go_def clear_def run_def stop_def suspend_def on_def settle_future_def
  apply_actions_def reactions_def emit_def

lemmas callback_defs = invoke_def result_of_def event_of_def settled_def finish_def advance_def
  resume_def

lemmas setup_defs = default_options_def blank_def scheduleEndEvent_def construct_def
  combinator_options_def

lemmas example_defs = ok_step_def throwing_step_def rejecting_step_def slow_step_def

subsection \<open>The jump operation\<close>

text \<open>
  C7, as amended. \<^verbatim>\<open>go(n)\<close> sets the cursor to \<open>min n (length steps)\<close>, so the cursor never
  exceeds the length of the queue; there is no lower bound: a target that is zero or negative
  is stored as it is given. \<^verbatim>\<open>go(undefined)\<close> changes nothing.
\<close>

theorem go_sets_cursor_to_min:
  "index (go (Some n) w) = min n (int (length (steps w)))
   \<and> index (go (Some n) w) \<le> int (length (steps w))
   \<and> index (go (Some (- int k)) w) = - int k
   \<and> go None w = w"
  by (simp add: go_def)

text \<open>
  C7 as stated fails: on a fresh instance with one step, \<^verbatim>\<open>go(-1)\<close> leaves the cursor at
  \<open>-1\<close>, below 0.
\<close>

theorem go_below_zero_counterexample:
  "\<not> (0 \<le> index (go (Some (- 1)) (construct HasNextTick [ok_step (Str ''a'')] default_options)))"
  by (simp add: go_def setup_defs method_defs host_defs Let_def)

subsection \<open>The re-entrancy guard of next\<close>

text \<open>
  C9. On a running instance an external \<^verbatim>\<open>next()\<close> (\<open>inner = False\<close>) returns a promise
  rejected with the error of \<^verbatim>\<open>errno\<close> 2, and the world it leaves differs from the one it
  found in the console warning only: cursor, steps, history, the busy, running and suspended
  flags and all job queues are as before.
\<close>

theorem next_external_while_running_rejects:
  assumes "running w"
  shows "snd (next False w)
           = RejectedWith (SequenceError 2 ''Cannot call next during the sequence is running.'')
         \<and> fst (next False w)
           = w\<lparr>console := console w @ [''Please do not call next() while the sequence is running.'']\<rparr>
         \<and> index (fst (next False w)) = index w
         \<and> steps (fst (next False w)) = steps w
         \<and> results (fst (next False w)) = results w
         \<and> busy (fst (next False w)) = busy w
         \<and> running (fst (next False w)) = running w
         \<and> suspended (fst (next False w)) = suspended w
         \<and> microtasks (fst (next False w)) = microtasks w
         \<and> timers (fst (next False w)) = timers w"
  using assms by (simp add: next_def)

theorem next_external_while_running_rejects_witness:
  "running (run (construct HasNextTick [ok_step (Str ''a'')] default_options))
   \<and> errno (case snd (next False (run (construct HasNextTick [ok_step (Str ''a'')] default_options)))
             of RejectedWith e \<Rightarrow> e | _ \<Rightarrow> SequenceError 0 []) = 2
   \<and> index (fst (next False (run (construct HasNextTick [ok_step (Str ''a'')] default_options)))) = 0"
proof -
  have r: "running (run (construct HasNextTick [ok_step (Str ''a'')] default_options))"
    by (simp add: setup_defs method_defs host_defs Let_def)
  have i: "index (run (construct HasNextTick [ok_step (Str ''a'')] default_options)) = 0"
    by (simp add: setup_defs method_defs host_defs Let_def)
  show ?thesis
    using next_external_while_running_rejects [OF r] r i by simp
qed

subsection \<open>What the methods leave alone\<close>


lemma step_at_busy [simp]: "step_at (w\<lparr>busy := b\<rparr>) = step_at w"
  by (simp add: step_at_def)

lemma nth_step_Nil [simp]: "nth_step [] i = None"
  by (simp add: nth_step_def)

lemma set_insert_timer [simp]: "set (insert_timer e ts) = insert e (set ts)"
  by (induction ts) auto

lemma pending_setTimeout [simp]:
  "set (pending_timer_tasks (setTimeout t d w)) = insert t (set (pending_timer_tasks w))"
  by (simp add: pending_timer_tasks_def setTimeout_def)

lemma then_step_frame [simp]:
  "steps (then_step q w) = steps w" "index (then_step q w) = index w"
  "busy (then_step q w) = busy w" "trace (then_step q w) = trace w"
  "results (then_step q w) = results w" "running (then_step q w) = running w"
  "suspended (then_step q w) = suspended w" "timers (then_step q w) = timers w"
  "listeners (then_step q w) = listeners w" "future (then_step q w) = future w"
  by (simp_all add: then_step_def enqueue_micro_def Let_def split: pstate.splits)

lemma next_frame [simp]:
  "steps (fst (next b w)) = steps w" "index (fst (next b w)) = index w"
  "running (fst (next b w)) = running w" "suspended (fst (next b w)) = suspended w"
  "trace (fst (next b w)) = trace w" "results (fst (next b w)) = results w"
  "listeners (fst (next b w)) = listeners w" "future (fst (next b w)) = future w"
  by (simp_all add: next_def setTimeout_def)

lemma trace_apply_action [simp]: "trace (apply_action a w) = trace w"
  by (cases a) (simp_all add: append_steps_def go_def clear_def createConfig_def run_def stop_def
      suspend_def settle_future_def host_defs Let_def split: append_arg.splits option.splits)

lemma trace_apply_actions [simp]: "trace (apply_actions as w) = trace w"
  unfolding apply_actions_def by (induction as arbitrary: w) simp_all

lemma trace_emit [simp]: "trace (emit ev w) = trace w @ [Emitted ev]"
  by (simp add: emit_def)



lemma listeners_apply_action [simp]: "listeners (apply_action a w) = listeners w"
  by (cases a) (simp_all add: append_steps_def go_def clear_def createConfig_def run_def stop_def
      suspend_def settle_future_def host_defs Let_def split: append_arg.splits option.splits)

lemma reactions_cong: "listeners w' = listeners w \<Longrightarrow> reactions ev w' = reactions ev w"
  by (simp add: reactions_def)

lemma reactions_update [simp]:
  "reactions ev (w\<lparr>results := rs\<rparr>) = reactions ev w"
  "reactions ev (w\<lparr>trace := tr\<rparr>) = reactions ev w"
  "reactions ev (w\<lparr>index := i\<rparr>) = reactions ev w"
  "reactions ev (w\<lparr>busy := b\<rparr>) = reactions ev w"
  "reactions ev (w\<lparr>microtasks := ms\<rparr>) = reactions ev w"
  "reactions ev (w\<lparr>timers := ts\<rparr>) = reactions ev w"
  "reactions ev (w\<lparr>now := t\<rparr>) = reactions ev w"
  by (simp_all add: reactions_def)

lemma steps_append_steps: "steps (append_steps a w) = steps w @ arg_steps a"
  by (cases a) (simp_all add: append_steps_def arg_steps_def Let_def)

subsection \<open>Stopping and clearing\<close>

lemma resume_filtered_out:
  "list_all (\<lambda>e. snd (snd e) = Resume \<longrightarrow> Some i = Some (fst (snd e))) ts \<Longrightarrow>
   Resume \<notin> set (map (\<lambda>e. snd (snd e)) (filter (\<lambda>e. fst (snd e) \<noteq> i) ts))"
  by (induction ts) auto

text \<open>
  C8, as amended. \<^verbatim>\<open>stop()\<close> cancels the pending resume timer (the one \<^verbatim>\<open>suspendTimeout\<close>
  holds), clears \<^verbatim>\<open>running\<close> and \<^verbatim>\<open>suspended\<close> and leaves history, cursor, steps, the busy
  flag and the promise jobs as they are. \<^verbatim>\<open>clear()\<close> resets steps, history, cursor, busy and
  the chain only: the timers, \<^verbatim>\<open>suspendTimeout\<close>, \<^verbatim>\<open>suspended\<close> and \<^verbatim>\<open>running\<close> are
  untouched, so a pending resume timer stays pending.
\<close>

theorem stop_cancels_resume_keeps_history:
  assumes "resume_tracked w"
  shows "Resume \<notin> set (pending_timer_tasks (stop w))
         \<and> suspendTimeout (stop w) = None
         \<and> \<not> running (stop w) \<and> \<not> suspended (stop w)
         \<and> results (stop w) = results w \<and> index (stop w) = index w
         \<and> steps (stop w) = steps w \<and> busy (stop w) = busy w
         \<and> microtasks (stop w) = microtasks w
         \<and> timers (clear w) = timers w
         \<and> suspendTimeout (clear w) = suspendTimeout w
         \<and> suspended (clear w) = suspended w
         \<and> running (clear w) = running w"
proof (cases "suspendTimeout w")
  case None
  with assms have "Resume \<notin> set (pending_timer_tasks w)"
    by (auto simp: resume_tracked_def pending_timer_tasks_def list_all_iff)
  with None show ?thesis
    by (simp add: stop_def clear_def createConfig_def pending_timer_tasks_def)
next
  case (Some i)
  with assms have "Resume \<notin> set (map (\<lambda>e. snd (snd e)) (filter (\<lambda>e. fst (snd e) \<noteq> i) (timers w)))"
    by (intro resume_filtered_out) (simp add: resume_tracked_def)
  with Some show ?thesis
    by (simp add: stop_def clear_def createConfig_def pending_timer_tasks_def clearTimeout_def)
qed

lemma suspended_example_timers:
  "timers suspended_example = [(0, 0, AutoRun), (50, 1, Resume)]
   \<and> suspendTimeout suspended_example = Some 1 \<and> suspended suspended_example"
  by (simp add: suspended_example_def setup_defs method_defs host_defs Let_def)

theorem stop_cancels_resume_keeps_history_witness:
  "resume_tracked suspended_example
   \<and> Resume \<notin> set (pending_timer_tasks (stop suspended_example))
   \<and> timers (stop suspended_example) = [(0, 0, AutoRun)]"
proof -
  have h: "resume_tracked suspended_example"
    using suspended_example_timers by (simp add: resume_tracked_def)
  have "timers (stop suspended_example) = [(0, 0, AutoRun)]"
    using suspended_example_timers by (simp add: stop_def clearTimeout_def)
  with stop_cancels_resume_keeps_history [OF h] h show ?thesis by simp
qed

text \<open>
  C8 as stated fails for \<^verbatim>\<open>clear()\<close>: on an instance suspended for 50 ms, \<^verbatim>\<open>clear()\<close> leaves
  the resume timer pending and the instance suspended.
\<close>

theorem clear_keeps_resume_timer_counterexample:
  "Resume \<in> set (pending_timer_tasks (clear suspended_example))
   \<and> suspended (clear suspended_example)"
  using suspended_example_timers by (simp add: clear_def createConfig_def pending_timer_tasks_def)

subsection \<open>A failing step\<close>




subsection \<open>Appending to an exhausted sequence\<close>





subsection \<open>The event loop on an undisturbed instance\<close>

lemma tick_micro: "microtasks w = t # ts \<Longrightarrow> tick w = exec t (w\<lparr>microtasks := ts\<rparr>)"
  by (simp add: tick_def)

lemma event_loop_funpow: "event_loop (m + n) w = event_loop n ((tick ^^ m) w)"
proof (induction m arbitrary: w)
  case 0
  then show ?case by simp
next
  case (Suc m)
  show ?case
  proof (cases "idle w")
    case True
    then have "tick w = w" by (simp add: idle_def tick_def)
    then have "(tick ^^ Suc m) w = (tick ^^ m) w" by (simp add: funpow_swap1)
    moreover have "event_loop (Suc m + n) w = Some w" using True by simp
    moreover have "event_loop (m + n) w = Some w" using True by (cases "m + n") simp_all
    ultimately show ?thesis using Suc.IH [of w] by simp
  next
    case False
    then show ?thesis using Suc.IH [of "tick w"] by (simp add: funpow_swap1)
  qed
qed

lemma event_loop_idle: "idle w \<Longrightarrow> event_loop n w = Some w"
  by (cases n) simp_all

lemma event_loop_mono: "event_loop n w = Some w' \<Longrightarrow> event_loop (n + m) w = Some w'"
proof (induction n arbitrary: w)
  case 0
  then show ?case by (cases m) (simp_all split: if_splits)
next
  case (Suc n)
  then show ?case by (simp split: if_splits)
qed

lemma nth_step_nth: "i < length ss \<Longrightarrow> nth_step ss (int i) = Some (ss ! i)"
  by (simp add: nth_step_def)

lemma nth_step_beyond: "nth_step ss (int (length ss)) = None"
  by (simp add: nth_step_def)

lemma always_settlesD:
  assumes "always_settles P f"
  obtains d s where "settles (f p i rs) = Some (d, s)" "P s"
  using assms unfolding always_settles_def
  by (metis option.case_eq_if option.collapse prod.collapse)

lemma listeners_only:
  assumes "listeners w' = listeners w"
  shows "reactions ev w' = reactions ev w" "inert_listeners w' = inert_listeners w"
    "quiet_on w' Q = quiet_on w Q" "stops_on w' S F = stops_on w S F"
    "end_ignored w' = end_ignored w"
  using assms
  by (simp_all add: reactions_def inert_listeners_def quiet_on_def stops_on_def end_ignored_def)

lemma last_result_microtasks [simp]: "last_result (w\<lparr>microtasks := x\<rparr>) = last_result w"
  by (simp add: last_result_def)

lemma apply_inert:
  assumes "inert a" "suspendTimeout w = None" "\<not> suspended w"
  shows "apply_action a w
         = w\<lparr>running := fst (react1 a (results w) (running w, future w)),
             future := snd (react1 a (results w) (running w, future w))\<rparr>"
  using assms by (cases a; cases w) (simp_all add: stop_def settle_future_def)

lemma apply_inerts:
  assumes "list_all inert as" "suspendTimeout w = None" "\<not> suspended w"
  shows "apply_actions as w
         = w\<lparr>running := fst (react as (results w) (running w, future w)),
             future := snd (react as (results w) (running w, future w))\<rparr>"
  using assms
proof (induction as arbitrary: w)
  case Nil
  then show ?case by (cases w) (simp add: apply_actions_def react_def)
next
  case (Cons a as)
  let ?w1 = "apply_action a w"
  have w1: "?w1 = w\<lparr>running := fst (react1 a (results w) (running w, future w)),
             future := snd (react1 a (results w) (running w, future w))\<rparr>"
    using Cons.prems by (intro apply_inert) simp_all
  have "apply_actions (a # as) w = apply_actions as ?w1"
    by (simp add: apply_actions_def)
  also have "\<dots> = ?w1\<lparr>running := fst (react as (results ?w1) (running ?w1, future ?w1)),
             future := snd (react as (results ?w1) (running ?w1, future ?w1))\<rparr>"
    using Cons.prems by (intro Cons.IH) (simp_all add: w1)
  also have "\<dots> = w\<lparr>running := fst (react (a # as) (results w) (running w, future w)),
             future := snd (react (a # as) (results w) (running w, future w))\<rparr>"
    by (simp add: w1 react_def)
  finally show ?case .
qed

lemma inert_reactions: "inert_listeners w \<Longrightarrow> list_all inert (reactions ev w)"
  by (auto simp: inert_listeners_def reactions_def list_all_iff)

lemma emit_inert:
  assumes "inert_listeners w" "suspendTimeout w = None" "\<not> suspended w"
  shows "emit ev w
         = w\<lparr>trace := trace w @ [Emitted ev],
             running := fst (react (reactions ev w) (results w) (running w, future w)),
             future := snd (react (reactions ev w) (results w) (running w, future w))\<rparr>"
proof -
  let ?w1 = "w\<lparr>trace := trace w @ [Emitted ev]\<rparr>"
  have "apply_actions (reactions ev w) ?w1
        = ?w1\<lparr>running := fst (react (reactions ev w) (results ?w1) (running ?w1, future ?w1)),
               future := snd (react (reactions ev w) (results ?w1) (running ?w1, future ?w1))\<rparr>"
    using assms by (intro apply_inerts inert_reactions) simp_all
  then show ?thesis by (simp add: emit_def)
qed

lemma invoke_settles:
  assumes "nth_step (steps w) (index w) = Some f"
      and "settles (f (last_result w) (index w) (results w)) = Some (d, s)"
  shows "invoke q w =
           (if d = 0 then enqueue_micro (Settled q s) (w\<lparr>trace := trace w @ [Invoked (index w)]\<rparr>)
            else setTimeout (Settled q s) d (w\<lparr>trace := trace w @ [Invoked (index w)]\<rparr>))"
  using assms
  by (cases "f (last_result w) (index w) (results w)")
     (auto simp: invoke_def step_at_def settles_def Let_def)

text \<open>The call of the step and the wait for its awaitable.\<close>

lemma phase1:
  assumes "poised w" "nth_step (steps w) (index w) = Some f"
      and "settles (f (last_result w) (index w) (results w)) = Some (d, s)"
  shows "\<exists>t n. now w \<le> t \<and>
           tick (tick w) = settled (promise w) s
             (w\<lparr>microtasks := [], timers := [], trace := trace w @ [Invoked (index w)],
                now := t, next_tid := n\<rparr>)"
proof -
  have m: "microtasks w = [StepTask (promise w)]" "timers w = []"
    using assms(1) by (simp_all add: poised_def)
  have i: "tick w = invoke (promise w) (w\<lparr>microtasks := []\<rparr>)"
    by (simp add: tick_micro [OF m(1)])
  have a: "nth_step (steps (w\<lparr>microtasks := []\<rparr>)) (index (w\<lparr>microtasks := []\<rparr>)) = Some f"
    "settles (f (last_result (w\<lparr>microtasks := []\<rparr>)) (index (w\<lparr>microtasks := []\<rparr>))
       (results (w\<lparr>microtasks := []\<rparr>))) = Some (d, s)"
    using assms(2,3) by simp_all
  show ?thesis
  proof (cases "d = 0")
    case True
    let ?w1 = "w\<lparr>microtasks := [Settled (promise w) s], trace := trace w @ [Invoked (index w)]\<rparr>"
    have e1: "tick w = ?w1"
      using True by (simp add: i invoke_settles [OF a] enqueue_micro_def)
    have "tick ?w1 = settled (promise w) s (w\<lparr>microtasks := [], timers := [],
                  trace := trace w @ [Invoked (index w)], now := now w, next_tid := next_tid w\<rparr>)"
      using m by (cases w) (simp add: tick_def)
    then show ?thesis unfolding e1 by blast
  next
    case False
    let ?w1 = "w\<lparr>microtasks := [], timers := [(now w + d, next_tid w, Settled (promise w) s)],
                     next_tid := Suc (next_tid w), trace := trace w @ [Invoked (index w)]\<rparr>"
    have e1: "tick w = ?w1"
      using False m by (simp add: i invoke_settles [OF a] setTimeout_def)
    have "tick ?w1 = settled (promise w) s (w\<lparr>microtasks := [], timers := [],
                  trace := trace w @ [Invoked (index w)], now := now w + d, next_tid := Suc (next_tid w)\<rparr>)"
      by (cases w) (simp add: tick_def max_def)
    then show ?thesis
      unfolding e1 by (intro exI [of _ "now w + d"] exI [of _ "Suc (next_tid w)"]) simp
  qed
qed

text \<open>The settlement handler, its listeners doing nothing but stopping and settling.\<close>

lemma phase2:
  assumes "poised w" "inert_listeners w"
  shows "settled (promise w) s
           (w\<lparr>microtasks := [], timers := [], trace := tr, now := t, next_tid := n\<rparr>)
         = (let r = result_of s (index w) t; ev = event_of s r (index w); rs = results w @ [r];
                bf = react (reactions ev w) rs (True, future w)
            in w\<lparr>microtasks := [Finish (promise w) r], timers := [], trace := tr @ [Emitted ev],
                 now := t, next_tid := n, results := rs, running := fst bf, future := snd bf\<rparr>)"
proof -
  let ?w0 = "w\<lparr>microtasks := [], timers := [], trace := tr, now := t, next_tid := n\<rparr>"
  let ?r = "result_of s (index w) t"
  let ?w1 = "?w0\<lparr>results := results w @ [?r]\<rparr>"
  have p: "suspendTimeout w = None" "\<not> suspended w" "running w"
    using assms(1) by (simp_all add: poised_def)
  have i: "inert_listeners ?w1"
    using assms(2) by (simp add: inert_listeners_def)
  have "emit (event_of s ?r (index w)) ?w1
        = ?w1\<lparr>trace := trace ?w1 @ [Emitted (event_of s ?r (index w))],
             running := fst (react (reactions (event_of s ?r (index w)) ?w1) (results ?w1) (running ?w1, future ?w1)),
             future := snd (react (reactions (event_of s ?r (index w)) ?w1) (results ?w1) (running ?w1, future ?w1))\<rparr>"
    using p by (intro emit_inert i) simp_all
  then show ?thesis
    using p by (cases w) (simp add: settled_def Let_def enqueue_micro_def reactions_def)
qed

text \<open>The last handler, with and without a step after the cursor.\<close>

lemma phase3_more:
  assumes "poised w" "nth_step (steps w) (index w + 1) \<noteq> None"
  shows "tick (w\<lparr>microtasks := [Finish (promise w) r], timers := [], trace := tr,
                 now := t, next_tid := n, results := rs, running := b, future := fu\<rparr>)
         = w\<lparr>microtasks := [], timers := [(t + interval w, n, Advance)], trace := tr,
             now := t, next_tid := Suc n, results := rs, running := b, future := fu,
             index := index w + 1, busy := False,
             pstore := (pstore w)(promise w := Fulfilled (Some r))\<rparr>"
proof -
  from assms(2) obtain g where g: "nth_step (steps w) (index w + 1) = Some g"
    by auto
  have p: "waiting w = []"
    using assms(1) by (simp add: poised_def)
  show ?thesis
    using p g
    by (cases w) (simp add: tick_def finish_def Let_def setTimeout_def fulfil_def step_at_def)
qed

lemma phase3_end:
  assumes "poised w" "inert_listeners w" "nth_step (steps w) (index w + 1) = None"
  shows "tick (w\<lparr>microtasks := [Finish (promise w) r], timers := [], trace := tr,
                 now := t, next_tid := n, results := rs, running := b, future := fu\<rparr>)
         = (let bf = react (reactions (End rs) w) rs (b, fu)
            in w\<lparr>microtasks := [], timers := [], trace := tr @ [Emitted (End rs)],
                 now := t, next_tid := n, results := rs, running := fst bf, future := snd bf,
                 index := index w + 1, busy := False,
                 pstore := (pstore w)(promise w := Fulfilled (Some r))\<rparr>)"
proof -
  let ?w1 = "w\<lparr>microtasks := [], timers := [], trace := tr,
                 now := t, next_tid := n, results := rs, running := b, future := fu,
                 index := index w + 1, busy := False\<rparr>"
  have p: "waiting w = []" "suspendTimeout w = None" "\<not> suspended w"
    using assms(1) by (simp_all add: poised_def)
  have i: "inert_listeners ?w1"
    using assms(2) by (simp add: inert_listeners_def)
  have e: "emit (End rs) ?w1
        = ?w1\<lparr>trace := trace ?w1 @ [Emitted (End rs)],
             running := fst (react (reactions (End rs) ?w1) (results ?w1) (running ?w1, future ?w1)),
             future := snd (react (reactions (End rs) ?w1) (results ?w1) (running ?w1, future ?w1))\<rparr>"
    using p by (intro emit_inert i) simp_all
  have n: "step_at ?w1 = None"
    using assms(3) by (simp add: step_at_def)
  have "tick (w\<lparr>microtasks := [Finish (promise w) r], timers := [], trace := tr,
                 now := t, next_tid := n, results := rs, running := b, future := fu\<rparr>)
        = fulfil (promise w) (Some r) (emit (End rs) ?w1)"
    using n by (cases w) (simp add: tick_def finish_def Let_def step_at_def)
  also have "\<dots> = (let bf = react (reactions (End rs) w) rs (b, fu)
            in w\<lparr>microtasks := [], timers := [], trace := tr @ [Emitted (End rs)],
                 now := t, next_tid := n, results := rs, running := fst bf, future := snd bf,
                 index := index w + 1, busy := False,
                 pstore := (pstore w)(promise w := Fulfilled (Some r))\<rparr>)"
    unfolding e using p by (cases w) (simp add: fulfil_def Let_def reactions_def)
  finally show ?thesis .
qed

text \<open>The advancement timer, on a running and on a stopped instance.\<close>

lemma phase4_running:
  assumes "microtasks w = []" "timers w = [(due, n, Advance)]" "running w" "\<not> busy w"
      and "\<not> suspended w" "nth_step (steps w) (index w) \<noteq> None"
      and "pstore w (promise w) = Fulfilled v"
  shows "tick w = w\<lparr>timers := [], now := max (now w) due, busy := True,
                    pstore := (pstore w)(next_pid w := Pending), next_pid := Suc (next_pid w),
                    promise := next_pid w, microtasks := [StepTask (next_pid w)]\<rparr>"
proof -
  from assms(6) have s: "steps w \<noteq> []"
    by auto
  show ?thesis
    using assms s
    by (cases w) (simp add: tick_def advance_def next_def then_step_def enqueue_micro_def
        Let_def step_at_def)
qed

lemma phase4_stopped:
  assumes "microtasks w = []" "timers w = [(due, n, Advance)]" "\<not> running w"
  shows "tick w = w\<lparr>timers := [], now := max (now w) due\<rparr>"
  using assms by (cases w) (simp add: tick_def advance_def)

text \<open>Three jobs of a poised world: the call of the step, its settlement, the last handler.\<close>

lemma three_ticks_more:
  assumes "poised w" "inert_listeners w" "nth_step (steps w) (index w) = Some f"
      and "settles (f (last_result w) (index w) (results w)) = Some (d, s)"
      and "nth_step (steps w) (index w + 1) \<noteq> None"
  shows "\<exists>t n. now w \<le> t \<and> (tick ^^ 3) w =
           (let r = result_of s (index w) t; ev = event_of s r (index w); rs = results w @ [r];
                bf = react (reactions ev w) rs (True, future w)
            in w\<lparr>microtasks := [], timers := [(t + interval w, n, Advance)],
                 trace := trace w @ [Invoked (index w), Emitted ev],
                 now := t, next_tid := Suc n, results := rs, running := fst bf, future := snd bf,
                 index := index w + 1, busy := False,
                 pstore := (pstore w)(promise w := Fulfilled (Some r))\<rparr>)"
proof -
  from phase1 [OF assms(1,3,4)] obtain t n where t: "now w \<le> t"
    and e: "tick (tick w) = settled (promise w) s
             (w\<lparr>microtasks := [], timers := [], trace := trace w @ [Invoked (index w)],
                now := t, next_tid := n\<rparr>)"
    by blast
  have "(tick ^^ 3) w = tick (tick (tick w))"
    by (simp add: numeral_3_eq_3)
  also have "\<dots> = (let r = result_of s (index w) t; ev = event_of s r (index w); rs = results w @ [r];
                bf = react (reactions ev w) rs (True, future w)
            in w\<lparr>microtasks := [], timers := [(t + interval w, n, Advance)],
                 trace := trace w @ [Invoked (index w), Emitted ev],
                 now := t, next_tid := Suc n, results := rs, running := fst bf, future := snd bf,
                 index := index w + 1, busy := False,
                 pstore := (pstore w)(promise w := Fulfilled (Some r))\<rparr>)"
    unfolding e phase2 [OF assms(1,2)] Let_def
    by (simp add: phase3_more [OF assms(1,5)])
  finally show ?thesis using t by blast
qed

lemma three_ticks_end:
  assumes "poised w" "inert_listeners w" "nth_step (steps w) (index w) = Some f"
      and "settles (f (last_result w) (index w) (results w)) = Some (d, s)"
      and "nth_step (steps w) (index w + 1) = None"
  shows "\<exists>t n. now w \<le> t \<and> (tick ^^ 3) w =
           (let r = result_of s (index w) t; ev = event_of s r (index w); rs = results w @ [r];
                bf = react (reactions (End rs) w) rs (react (reactions ev w) rs (True, future w))
            in w\<lparr>microtasks := [], timers := [],
                 trace := trace w @ [Invoked (index w), Emitted ev, Emitted (End rs)],
                 now := t, next_tid := n, results := rs, running := fst bf, future := snd bf,
                 index := index w + 1, busy := False,
                 pstore := (pstore w)(promise w := Fulfilled (Some r))\<rparr>)"
proof -
  from phase1 [OF assms(1,3,4)] obtain t n where t: "now w \<le> t"
    and e: "tick (tick w) = settled (promise w) s
             (w\<lparr>microtasks := [], timers := [], trace := trace w @ [Invoked (index w)],
                now := t, next_tid := n\<rparr>)"
    by blast
  have "(tick ^^ 3) w = tick (tick (tick w))"
    by (simp add: numeral_3_eq_3)
  also have "\<dots> = (let r = result_of s (index w) t; ev = event_of s r (index w); rs = results w @ [r];
                bf = react (reactions (End rs) w) rs (react (reactions ev w) rs (True, future w))
            in w\<lparr>microtasks := [], timers := [],
                 trace := trace w @ [Invoked (index w), Emitted ev, Emitted (End rs)],
                 now := t, next_tid := n, results := rs, running := fst bf, future := snd bf,
                 index := index w + 1, busy := False,
                 pstore := (pstore w)(promise w := Fulfilled (Some r))\<rparr>)"
    unfolding e phase2 [OF assms(1,2)] Let_def
    by (simp add: phase3_end [OF assms(1,2,5)] Let_def)
  finally show ?thesis using t by blast
qed

lemma cycle:
  assumes "poised w" "inert_listeners w" "nth_step (steps w) (index w) = Some f"
      and "settles (f (last_result w) (index w) (results w)) = Some (d, s)"
      and "nth_step (steps w) (index w + 1) \<noteq> None"
      and "\<forall>r rs. react (reactions (event_of s r (index w)) w) rs (True, future w) = (True, future w)"
  shows "\<exists>t. poised ((tick ^^ 4) w) \<and> listeners ((tick ^^ 4) w) = listeners w
           \<and> steps ((tick ^^ 4) w) = steps w \<and> future ((tick ^^ 4) w) = future w
           \<and> index ((tick ^^ 4) w) = index w + 1
           \<and> results ((tick ^^ 4) w) = results w @ [result_of s (index w) t]
           \<and> trace ((tick ^^ 4) w)
               = trace w @ [Invoked (index w), Emitted (event_of s (result_of s (index w) t) (index w))]"
proof -
  from three_ticks_more [OF assms(1-5)] obtain t n where
    e: "(tick ^^ 3) w =
           (let r = result_of s (index w) t; ev = event_of s r (index w); rs = results w @ [r];
                bf = react (reactions ev w) rs (True, future w)
            in w\<lparr>microtasks := [], timers := [(t + interval w, n, Advance)],
                 trace := trace w @ [Invoked (index w), Emitted ev],
                 now := t, next_tid := Suc n, results := rs, running := fst bf, future := snd bf,
                 index := index w + 1, busy := False,
                 pstore := (pstore w)(promise w := Fulfilled (Some r))\<rparr>)"
    by blast
  define w3 where "w3 = (tick ^^ 3) w"
  let ?r = "result_of s (index w) t"
  have p: "\<not> suspended w" "suspendTimeout w = None" "waiting w = []"
    using assms(1) by (simp_all add: poised_def)
  have w3: "microtasks w3 = []" "timers w3 = [(t + interval w, n, Advance)]" "running w3"
    "\<not> busy w3" "\<not> suspended w3" "nth_step (steps w3) (index w3) \<noteq> None"
    "pstore w3 (promise w3) = Fulfilled (Some ?r)" "suspendTimeout w3 = None" "waiting w3 = []"
    "listeners w3 = listeners w" "steps w3 = steps w" "future w3 = future w"
    "index w3 = index w + 1" "results w3 = results w @ [?r]"
    "trace w3 = trace w @ [Invoked (index w), Emitted (event_of s ?r (index w))]"
    unfolding w3_def e Let_def using assms(5,6) p by simp_all
  have "(tick ^^ 4) w = tick w3"
    by (simp add: numeral_eq_Suc w3_def)
  also have "\<dots> = w3\<lparr>timers := [], now := max (now w3) (t + interval w), busy := True,
                    pstore := (pstore w3)(next_pid w3 := Pending), next_pid := Suc (next_pid w3),
                    promise := next_pid w3, microtasks := [StepTask (next_pid w3)]\<rparr>"
    by (rule phase4_running [OF w3(1-7)])
  finally have f: "(tick ^^ 4) w = w3\<lparr>timers := [], now := max (now w3) (t + interval w),
                    busy := True,
                    pstore := (pstore w3)(next_pid w3 := Pending), next_pid := Suc (next_pid w3),
                    promise := next_pid w3, microtasks := [StepTask (next_pid w3)]\<rparr>" .
  show ?thesis
    unfolding f using w3 by (intro exI [of _ t]) (simp add: poised_def)
qed

text \<open>The last step of a run that a listener stops.\<close>

lemma stopping_step:
  assumes "poised w" "inert_listeners w" "future w = FPending"
      and "nth_step (steps w) (index w) = Some f"
      and "settles (f (last_result w) (index w) (results w)) = Some (d, s)"
      and stop: "\<And>r i rs. react (reactions (event_of s r i) w) rs (True, FPending) = (False, F rs)"
      and endi: "\<And>rs rs' b. react (reactions (End rs) w) rs' (b, F rs') = (b, F rs')"
  shows "\<exists>w' t. event_loop 4 w = Some w'
           \<and> results w' = results w @ [result_of s (index w) t]
           \<and> future w' = F (results w') \<and> \<not> running w' \<and> \<not> busy w' \<and> index w' = index w + 1
           \<and> (\<exists>tr. trace w' = trace w @ Invoked (index w) # tr \<and> (\<forall>j. Invoked j \<notin> set tr))"
proof (cases "nth_step (steps w) (index w + 1) = None")
  case True
  from three_ticks_end [OF assms(1,2,4,5) True] obtain t n where
    e: "(tick ^^ 3) w =
         (let r = result_of s (index w) t; ev = event_of s r (index w); rs = results w @ [r];
              bf = react (reactions (End rs) w) rs (react (reactions ev w) rs (True, future w))
          in w\<lparr>microtasks := [], timers := [],
               trace := trace w @ [Invoked (index w), Emitted ev, Emitted (End rs)],
               now := t, next_tid := n, results := rs, running := fst bf, future := snd bf,
               index := index w + 1, busy := False,
               pstore := (pstore w)(promise w := Fulfilled (Some r))\<rparr>)"
    by blast
  define w3 where "w3 = (tick ^^ 3) w"
  let ?r = "result_of s (index w) t"
  have w3: "microtasks w3 = []" "timers w3 = []" "\<not> running w3"
    "\<not> busy w3" "future w3 = F (results w @ [?r])"
    "index w3 = index w + 1" "results w3 = results w @ [?r]"
    "trace w3 = trace w @ Invoked (index w) # [Emitted (event_of s ?r (index w)),
                                     Emitted (End (results w @ [?r]))]"
    unfolding w3_def e Let_def using assms(3) by (simp_all add: stop endi)
  have "idle w3" using w3 by (simp add: idle_def)
  then have "event_loop 1 w3 = Some w3" by (rule event_loop_idle)
  then have "event_loop (3 + 1) w = Some w3" by (simp only: event_loop_funpow w3_def)
  then have "event_loop 4 w = Some w3" by simp
  then show ?thesis using w3 by (intro exI [of _ w3] exI [of _ t]) simp
next
  case False
  from three_ticks_more [OF assms(1,2,4,5) False] obtain t n where
    e: "(tick ^^ 3) w =
         (let r = result_of s (index w) t; ev = event_of s r (index w); rs = results w @ [r];
              bf = react (reactions ev w) rs (True, future w)
          in w\<lparr>microtasks := [], timers := [(t + interval w, n, Advance)],
               trace := trace w @ [Invoked (index w), Emitted ev],
               now := t, next_tid := Suc n, results := rs, running := fst bf, future := snd bf,
               index := index w + 1, busy := False,
               pstore := (pstore w)(promise w := Fulfilled (Some r))\<rparr>)"
    by blast
  let ?r = "result_of s (index w) t"
  define w3 where "w3 = (tick ^^ 3) w"
  have w3: "microtasks w3 = []" "timers w3 = [(t + interval w, n, Advance)]" "\<not> running w3"
    "\<not> busy w3" "future w3 = F (results w @ [?r])"
    "index w3 = index w + 1" "results w3 = results w @ [?r]"
    "trace w3 = trace w @ Invoked (index w) # [Emitted (event_of s ?r (index w))]"
    unfolding w3_def e Let_def using assms(3) by (simp_all add: stop)
  let ?w4 = "w3\<lparr>timers := [], now := max (now w3) (t + interval w)\<rparr>"
  have "(tick ^^ 4) w = tick w3"
    by (simp add: numeral_eq_Suc w3_def)
  also have "\<dots> = ?w4"
    by (rule phase4_stopped [OF w3(1-3)])
  finally have e': "(tick ^^ 4) w = ?w4" .
  have "idle ?w4" using w3 by (simp add: idle_def)
  then have "event_loop 0 ?w4 = Some ?w4" by (rule event_loop_idle)
  then have "event_loop (4 + 0) w = Some ?w4" by (simp only: event_loop_funpow e')
  then have "event_loop 4 w = Some ?w4" by simp
  then show ?thesis using w3 by (intro exI [of _ ?w4] exI [of _ t]) simp
qed

text \<open>The last step of a run that nobody stops: \<open>end\<close> is emitted.\<close>

lemma ending_step:
  assumes "poised w" "inert_listeners w"
      and "nth_step (steps w) (index w) = Some f"
      and "settles (f (last_result w) (index w) (results w)) = Some (d, s)"
      and "nth_step (steps w) (index w + 1) = None"
      and quiet: "\<And>r i rs. react (reactions (event_of s r i) w) rs (True, future w) = (True, future w)"
  shows "\<exists>w' t. event_loop 4 w = Some w'
           \<and> results w' = results w @ [result_of s (index w) t]
           \<and> running w' = fst (react (reactions (End (results w')) w) (results w') (True, future w))
           \<and> future w' = snd (react (reactions (End (results w')) w) (results w') (True, future w))
           \<and> \<not> busy w' \<and> index w' = index w + 1
           \<and> trace w' = trace w @ [Invoked (index w),
                 Emitted (event_of s (result_of s (index w) t) (index w)), Emitted (End (results w'))]"
proof -
  from three_ticks_end [OF assms(1-5)] obtain t n where
    e: "(tick ^^ 3) w =
         (let r = result_of s (index w) t; ev = event_of s r (index w); rs = results w @ [r];
              bf = react (reactions (End rs) w) rs (react (reactions ev w) rs (True, future w))
          in w\<lparr>microtasks := [], timers := [],
               trace := trace w @ [Invoked (index w), Emitted ev, Emitted (End rs)],
               now := t, next_tid := n, results := rs, running := fst bf, future := snd bf,
               index := index w + 1, busy := False,
               pstore := (pstore w)(promise w := Fulfilled (Some r))\<rparr>)"
    by blast
  define w3 where "w3 = (tick ^^ 3) w"
  let ?r = "result_of s (index w) t"
  have w3: "microtasks w3 = []" "timers w3 = []"
    "running w3 = fst (react (reactions (End (results w @ [?r])) w) (results w @ [?r]) (True, future w))"
    "future w3 = snd (react (reactions (End (results w @ [?r])) w) (results w @ [?r]) (True, future w))"
    "\<not> busy w3" "index w3 = index w + 1" "results w3 = results w @ [?r]"
    "trace w3 = trace w @ [Invoked (index w), Emitted (event_of s ?r (index w)),
                                     Emitted (End (results w @ [?r]))]"
    unfolding w3_def e Let_def by (simp_all add: quiet)
  have "idle w3" using w3 by (simp add: idle_def)
  then have "event_loop 1 w3 = Some w3" by (rule event_loop_idle)
  then have "event_loop (3 + 1) w = Some w3" by (simp only: event_loop_funpow w3_def)
  then have "event_loop 4 w = Some w3" by simp
  then show ?thesis using w3 by (intro exI [of _ w3] exI [of _ t]) simp
qed

lemma nth_step_Suc: "Suc i < length ss \<Longrightarrow> nth_step ss (int i + 1) \<noteq> None"
  by (simp add: nth_step_def)

lemma nth_step_last: "Suc i = length ss \<Longrightarrow> nth_step ss (int i + 1) = None"
  by (auto simp: nth_step_def)

lemma run_until_stop:
  assumes "poised w" "inert_listeners w" "future w = FPending"
      and "index w = int i" "i \<le> k" "k < length (steps w)"
      and "quiet_on w Q" "stops_on w S F" "\<forall>rs. F rs \<noteq> FPending" "end_ignored w"
      and "\<forall>j. i \<le> j \<and> j < k \<longrightarrow> always_settles Q (steps w ! j)"
      and "always_settles S (steps w ! k)"
  shows "\<exists>w' new tr. event_loop (4 * (k - i) + 4) w = Some w'
           \<and> results w' = results w @ new \<and> length new = k - i + 1
           \<and> future w' = F (results w') \<and> \<not> running w' \<and> \<not> busy w' \<and> index w' = int k + 1
           \<and> (\<forall>r \<in> set (butlast new). \<exists>s j t. Q s \<and> r = result_of s j t)
           \<and> (\<exists>s t. S s \<and> last new = result_of s (int k) t)
           \<and> trace w' = trace w @ tr
           \<and> (\<forall>j. Invoked j \<in> set tr \<longrightarrow> int i \<le> j \<and> j \<le> int k)"
  using assms
proof (induction "k - i" arbitrary: w i)
  case 0
  then have ik: "i = k" by simp
  let ?f = "steps w ! k"
  have st: "nth_step (steps w) (index w) = Some ?f"
    using 0 ik by (simp add: nth_step_nth)
  from always_settlesD [OF "0.prems"(12)]
  obtain d s where s: "settles (?f (last_result w) (index w) (results w)) = Some (d, s)" "S s"
    by blast
  have stop: "\<And>r i rs. react (reactions (event_of s r i) w) rs (True, FPending) = (False, F rs)"
    using "0.prems"(8) s(2) by (simp add: stops_on_def)
  have endi: "\<And>rs rs' b. react (reactions (End rs) w) rs' (b, F rs') = (b, F rs')"
    using "0.prems"(9,10) by (simp add: end_ignored_def)
  from stopping_step [OF "0.prems"(1-3) st s(1) stop endi]
  obtain w' t tr where w': "event_loop 4 w = Some w'"
    "results w' = results w @ [result_of s (index w) t]"
    "future w' = F (results w')" "\<not> running w'" "\<not> busy w'" "index w' = index w + 1"
    "trace w' = trace w @ Invoked (index w) # tr" "\<forall>j. Invoked j \<notin> set tr"
    by blast
  show ?case
    apply (rule exI [of _ w'], rule exI [of _ "[result_of s (index w) t]"])
    apply (rule exI [of _ "Invoked (index w) # tr"])
    using w' s(2) "0.prems"(4) ik by auto
next
  case (Suc m)
  then have ik: "i < k" "m = k - Suc i" by simp_all
  let ?f = "steps w ! i"
  have st: "nth_step (steps w) (index w) = Some ?f"
    using Suc.prems ik by (simp add: nth_step_nth)
  have more: "nth_step (steps w) (index w + 1) \<noteq> None"
    using Suc.prems ik nth_step_Suc [of i "steps w"] by simp
  have "always_settles Q ?f" using Suc.prems(11) ik by simp
  from always_settlesD [OF this]
  obtain d s where s: "settles (?f (last_result w) (index w) (results w)) = Some (d, s)" "Q s"
    by blast
  have quiet: "\<forall>r rs. react (reactions (event_of s r (index w)) w) rs (True, future w) = (True, future w)"
    using Suc.prems(7) s(2) by (simp add: quiet_on_def)
  let ?w4 = "(tick ^^ 4) w"
  from cycle [OF Suc.prems(1,2) st s(1) more quiet] obtain t where
    c: "poised ?w4" "listeners ?w4 = listeners w" "steps ?w4 = steps w" "future ?w4 = future w"
      "index ?w4 = index w + 1" "results ?w4 = results w @ [result_of s (index w) t]"
      "trace ?w4 = trace w @ [Invoked (index w), Emitted (event_of s (result_of s (index w) t) (index w))]"
    by blast
  have "\<exists>w' new tr. event_loop (4 * (k - Suc i) + 4) ?w4 = Some w'
           \<and> results w' = results ?w4 @ new \<and> length new = k - Suc i + 1
           \<and> future w' = F (results w') \<and> \<not> running w' \<and> \<not> busy w' \<and> index w' = int k + 1
           \<and> (\<forall>r \<in> set (butlast new). \<exists>s j t. Q s \<and> r = result_of s j t)
           \<and> (\<exists>s t. S s \<and> last new = result_of s (int k) t)
           \<and> trace w' = trace ?w4 @ tr
           \<and> (\<forall>j. Invoked j \<in> set tr \<longrightarrow> int (Suc i) \<le> j \<and> j \<le> int k)"
    using Suc.prems ik c
    by (intro Suc.hyps(1)) (simp_all add: listeners_only [OF c(2)])
  then obtain w' new tr where
    w': "event_loop (4 * (k - Suc i) + 4) ?w4 = Some w'"
      "results w' = results ?w4 @ new" "length new = k - Suc i + 1"
      "future w' = F (results w')" "\<not> running w'" "\<not> busy w'" "index w' = int k + 1"
      "\<forall>r \<in> set (butlast new). \<exists>s j t. Q s \<and> r = result_of s j t"
      "\<exists>s t. S s \<and> last new = result_of s (int k) t"
      "trace w' = trace ?w4 @ tr"
      "\<forall>j. Invoked j \<in> set tr \<longrightarrow> int (Suc i) \<le> j \<and> j \<le> int k"
    by blast
  have "event_loop (4 + (4 * (k - Suc i) + 4)) w = Some w'"
    using w'(1) by (simp only: event_loop_funpow)
  moreover have "4 + (4 * (k - Suc i) + 4) = 4 * (k - i) + 4"
    using ik by simp
  ultimately have l: "event_loop (4 * (k - i) + 4) w = Some w'" by simp
  let ?r = "result_of s (index w) t"
  have n: "new \<noteq> []" using w'(3) by auto
  have b: "\<forall>r \<in> set (butlast (?r # new)). \<exists>s j t. Q s \<and> r = result_of s j t"
    using w'(8) s(2) n by auto
  have tr: "\<forall>j. Invoked j \<in> set ([Invoked (index w), Emitted (event_of s ?r (index w))] @ tr)
              \<longrightarrow> int i \<le> j \<and> j \<le> int k"
    using w'(11) Suc.prems(4) ik by auto
  show ?case
    apply (rule exI [of _ w'], rule exI [of _ "?r # new"])
    apply (rule exI [of _ "[Invoked (index w), Emitted (event_of s ?r (index w))] @ tr"])
    using l w'(2-7,9,10) c(6,7) n ik b tr by simp
qed

lemma run_to_end:
  assumes "poised w" "inert_listeners w"
      and "index w = int i" "i < length (steps w)"
      and "quiet_on w Q"
      and "\<forall>j. i \<le> j \<and> j < length (steps w) \<longrightarrow> always_settles Q (steps w ! j)"
  shows "\<exists>w' new tr. event_loop (4 * (length (steps w) - i)) w = Some w'
           \<and> results w' = results w @ new \<and> length new = length (steps w) - i
           \<and> running w' = fst (react (reactions (End (results w')) w) (results w') (True, future w))
           \<and> future w' = snd (react (reactions (End (results w')) w) (results w') (True, future w))
           \<and> \<not> busy w' \<and> index w' = int (length (steps w))
           \<and> (\<forall>r \<in> set new. \<exists>s j t. Q s \<and> r = result_of s j t)
           \<and> trace w' = trace w @ tr @ [Emitted (End (results w'))]
           \<and> (\<forall>rs. Emitted (End rs) \<notin> set tr)"
  using assms
proof (induction "length (steps w) - Suc i" arbitrary: w i)
  case 0
  then have ik: "Suc i = length (steps w)" by simp
  let ?f = "steps w ! i"
  have st: "nth_step (steps w) (index w) = Some ?f"
    using 0 by (simp add: nth_step_nth)
  have last: "nth_step (steps w) (index w + 1) = None"
    using "0.prems"(3) ik nth_step_last [of i "steps w"] by simp
  have "always_settles Q ?f" using "0.prems"(4,6) by simp
  from always_settlesD [OF this]
  obtain d s where s: "settles (?f (last_result w) (index w) (results w)) = Some (d, s)" "Q s"
    by blast
  have quiet: "\<And>r i rs. react (reactions (event_of s r i) w) rs (True, future w) = (True, future w)"
    using "0.prems"(5) s(2) by (simp add: quiet_on_def)
  from ending_step [OF "0.prems"(1,2) st s(1) last quiet]
  obtain w' t where w': "event_loop 4 w = Some w'"
    "results w' = results w @ [result_of s (index w) t]"
    "running w' = fst (react (reactions (End (results w')) w) (results w') (True, future w))"
    "future w' = snd (react (reactions (End (results w')) w) (results w') (True, future w))"
    "\<not> busy w'" "index w' = index w + 1"
    "trace w' = trace w @ [Invoked (index w),
         Emitted (event_of s (result_of s (index w) t) (index w)), Emitted (End (results w'))]"
    by blast
  have f: "4 * (length (steps w) - i) = 4" using ik by simp
  have ne: "\<forall>rs. Emitted (End rs) \<notin> set [Invoked (index w),
         Emitted (event_of s (result_of s (index w) t) (index w))]"
    by (cases s) (simp_all add: event_of_def)
  show ?case
    apply (rule exI [of _ w'], rule exI [of _ "[result_of s (index w) t]"])
    apply (rule exI [of _ "[Invoked (index w),
         Emitted (event_of s (result_of s (index w) t) (index w))]"])
    using w' s(2) "0.prems"(3) ik f ne by auto
next
  case (Suc m)
  then have ik: "Suc i < length (steps w)" "m = length (steps w) - Suc (Suc i)" by simp_all
  let ?f = "steps w ! i"
  have st: "nth_step (steps w) (index w) = Some ?f"
    using Suc.prems ik by (simp add: nth_step_nth)
  have more: "nth_step (steps w) (index w + 1) \<noteq> None"
    using Suc.prems ik nth_step_Suc [of i "steps w"] by simp
  have "always_settles Q ?f" using Suc.prems(4,6) by simp
  from always_settlesD [OF this]
  obtain d s where s: "settles (?f (last_result w) (index w) (results w)) = Some (d, s)" "Q s"
    by blast
  have quiet: "\<forall>r rs. react (reactions (event_of s r (index w)) w) rs (True, future w) = (True, future w)"
    using Suc.prems(5) s(2) by (simp add: quiet_on_def)
  let ?w4 = "(tick ^^ 4) w"
  from cycle [OF Suc.prems(1,2) st s(1) more quiet] obtain t where
    c: "poised ?w4" "listeners ?w4 = listeners w" "steps ?w4 = steps w" "future ?w4 = future w"
      "index ?w4 = index w + 1" "results ?w4 = results w @ [result_of s (index w) t]"
      "trace ?w4 = trace w @ [Invoked (index w), Emitted (event_of s (result_of s (index w) t) (index w))]"
    by blast
  have "\<exists>w' new tr. event_loop (4 * (length (steps ?w4) - Suc i)) ?w4 = Some w'
           \<and> results w' = results ?w4 @ new \<and> length new = length (steps ?w4) - Suc i
           \<and> running w' = fst (react (reactions (End (results w')) ?w4) (results w') (True, future ?w4))
           \<and> future w' = snd (react (reactions (End (results w')) ?w4) (results w') (True, future ?w4))
           \<and> \<not> busy w' \<and> index w' = int (length (steps ?w4))
           \<and> (\<forall>r \<in> set new. \<exists>s j t. Q s \<and> r = result_of s j t)
           \<and> trace w' = trace ?w4 @ tr @ [Emitted (End (results w'))]
           \<and> (\<forall>rs. Emitted (End rs) \<notin> set tr)"
    using Suc.prems ik c
    by (intro Suc.hyps(1)) (simp_all add: listeners_only [OF c(2)])
  then obtain w' new tr where
    w': "event_loop (4 * (length (steps w) - Suc i)) ?w4 = Some w'"
      "results w' = results ?w4 @ new" "length new = length (steps w) - Suc i"
      "running w' = fst (react (reactions (End (results w')) w) (results w') (True, future w))"
      "future w' = snd (react (reactions (End (results w')) w) (results w') (True, future w))"
      "\<not> busy w'" "index w' = int (length (steps w))"
      "\<forall>r \<in> set new. \<exists>s j t. Q s \<and> r = result_of s j t"
      "trace w' = trace ?w4 @ tr @ [Emitted (End (results w'))]"
      "\<forall>rs. Emitted (End rs) \<notin> set tr"
    unfolding c(3,4) listeners_only(1) [OF c(2)] by blast
  have "event_loop (4 + 4 * (length (steps w) - Suc i)) w = Some w'"
    using w'(1) by (simp only: event_loop_funpow)
  moreover have "4 + 4 * (length (steps w) - Suc i) = 4 * (length (steps w) - i)"
    using ik by simp
  ultimately have l: "event_loop (4 * (length (steps w) - i)) w = Some w'" by simp
  let ?r = "result_of s (index w) t"
  have b: "\<forall>r \<in> set (?r # new). \<exists>s j t. Q s \<and> r = result_of s j t"
    using w'(8) s(2) by auto
  have ne: "\<forall>rs. Emitted (End rs) \<notin> set ([Invoked (index w), Emitted (event_of s ?r (index w))] @ tr)"
    using w'(10) by (cases s) (simp_all add: event_of_def)
  show ?case
    apply (rule exI [of _ w'], rule exI [of _ "?r # new"])
    apply (rule exI [of _ "[Invoked (index w), Emitted (event_of s ?r (index w))] @ tr"])
    using l w'(2-7,9) c(6,7) ik b ne by simp
qed

lemma event_names:
  "fulfils s \<Longrightarrow> name_of (event_of s r i) = OnSuccess"
  "rejects s \<Longrightarrow> name_of (event_of s r i) = OnFailed"
  by (cases s; simp add: event_of_def)+

lemma status_of:
  "fulfils s \<Longrightarrow> r_status (result_of s i t) = SUCCEEDED"
  "rejects s \<Longrightarrow> r_status (result_of s i t) = FAILED"
  "r_index (result_of s i t) = i"
  by (cases s; simp add: result_of_def)+

lemma all_listener_facts:
  assumes "listeners w = all_listeners"
  shows "inert_listeners w" "quiet_on w fulfils" "stops_on w rejects FRejected" "end_ignored w"
proof -
  show "inert_listeners w"
    using assms by (auto simp: inert_listeners_def all_listeners_def split: event.splits)
  show "quiet_on w fulfils"
    using assms by (simp add: quiet_on_def reactions_def all_listeners_def event_names react_def)
  show "stops_on w rejects FRejected"
    using assms by (simp add: stops_on_def reactions_def all_listeners_def event_names react_def)
  show "end_ignored w"
    using assms by (simp add: end_ignored_def reactions_def all_listeners_def react_def)
qed

lemma any_listener_facts:
  assumes "listeners w = any_listeners"
  shows "inert_listeners w" "quiet_on w rejects" "stops_on w fulfils FResolved" "end_ignored w"
    "react (reactions (End rs) w) rs' (b, FPending) = (b, FRejected rs')"
proof -
  show "inert_listeners w"
    using assms by (auto simp: inert_listeners_def any_listeners_def)
  show "quiet_on w rejects"
    using assms by (simp add: quiet_on_def reactions_def any_listeners_def event_names react_def)
  show "stops_on w fulfils FResolved"
    using assms by (simp add: stops_on_def reactions_def any_listeners_def event_names react_def)
  show "end_ignored w"
    using assms by (simp add: end_ignored_def reactions_def any_listeners_def react_def)
  show "react (reactions (End rs) w) rs' (b, FPending) = (b, FRejected rs')"
    using assms by (simp add: reactions_def any_listeners_def react_def)
qed

lemma construct_started:
  assumes "ss \<noteq> []" "opt_autoRun opts \<noteq> Some False"
  shows "microtasks (construct rt ss opts) = []"
    "\<exists>i. timers (construct rt ss opts) = [(0, i, AutoRun)]"
    "fresh_run (tick (construct rt ss opts)) ss []"
proof -
  from assms(1) obtain f fs where ss: "ss = f # fs" by (cases ss) auto
  show "microtasks (construct rt ss opts) = []"
    using assms by (simp add: construct_def createConfig_def blank_def append_steps_def
        setTimeout_def Let_def)
  show "\<exists>i. timers (construct rt ss opts) = [(0, i, AutoRun)]"
    using assms by (simp add: construct_def createConfig_def blank_def append_steps_def
        setTimeout_def Let_def)
  show "fresh_run (tick (construct rt ss opts)) ss []"
    using assms(2) unfolding ss
    by (simp add: fresh_run_def poised_def tick_def construct_def createConfig_def blank_def
        append_steps_def setTimeout_def run_def next_def then_step_def enqueue_micro_def
        step_at_def nth_step_def Let_def)
qed

lemma combinator_started:
  assumes "ss \<noteq> []"
  shows "microtasks ((construct rt ss (combinator_options ival))\<lparr>listeners := ls\<rparr>) = []"
    "\<exists>i. timers ((construct rt ss (combinator_options ival))\<lparr>listeners := ls\<rparr>) = [(0, i, AutoRun)]"
    "fresh_run (tick ((construct rt ss (combinator_options ival))\<lparr>listeners := ls\<rparr>)) ss ls"
proof -
  from assms(1) obtain f fs where ss: "ss = f # fs" by (cases ss) auto
  show "microtasks ((construct rt ss (combinator_options ival))\<lparr>listeners := ls\<rparr>) = []"
    using assms by (simp add: construct_def createConfig_def blank_def append_steps_def
        setTimeout_def combinator_options_def Let_def)
  show "\<exists>i. timers ((construct rt ss (combinator_options ival))\<lparr>listeners := ls\<rparr>) = [(0, i, AutoRun)]"
    using assms by (simp add: construct_def createConfig_def blank_def append_steps_def
        setTimeout_def combinator_options_def Let_def)
  show "fresh_run (tick ((construct rt ss (combinator_options ival))\<lparr>listeners := ls\<rparr>)) ss ls"
    unfolding ss
    by (simp add: fresh_run_def poised_def tick_def construct_def createConfig_def blank_def
        append_steps_def setTimeout_def run_def next_def then_step_def enqueue_micro_def
        step_at_def nth_step_def combinator_options_def Let_def)
qed

lemma all_world:
  "ss \<noteq> [] \<Longrightarrow>
   all rt ss ival [] = Started ((construct rt ss (combinator_options ival))\<lparr>listeners := all_listeners\<rparr>)"
  by (simp add: all_def on_def apply_actions_def all_listeners_def construct_def createConfig_def
      blank_def append_steps_def setTimeout_def combinator_options_def Let_def)

lemma any_world:
  "ss \<noteq> [] \<Longrightarrow>
   any rt ss ival [] = Started ((construct rt ss (combinator_options ival))\<lparr>listeners := any_listeners\<rparr>)"
  by (simp add: any_def on_def apply_actions_def any_listeners_def construct_def createConfig_def
      blank_def append_steps_def setTimeout_def combinator_options_def Let_def)

lemma first_tick:
  assumes "microtasks W = []" "\<exists>i. timers W = [(0, i, AutoRun)]"
  shows "event_loop (Suc n) W = event_loop n (tick W)"
  using assms by (auto simp: idle_def)

lemma all_first_failure:
  assumes "k < length ss" "\<forall>j<k. always_settles fulfils (ss ! j)"
      and "always_settles rejects (ss ! k)"
  shows "\<exists>W w'. all rt ss ival [] = Started W \<and> event_loop (4 * k + 5) W = Some w'
           \<and> future w' = FRejected (results w') \<and> length (results w') = k + 1
           \<and> r_status (last (results w')) = FAILED \<and> r_index (last (results w')) = int k
           \<and> (\<forall>r \<in> set (butlast (results w')). r_status r = SUCCEEDED)
           \<and> \<not> running w' \<and> \<not> busy w' \<and> index w' = int k + 1
           \<and> (\<forall>j. Invoked j \<in> set (trace w') \<longrightarrow> 0 \<le> j \<and> j \<le> int k)"
proof -
  from assms(1) have ne: "ss \<noteq> []" by auto
  let ?W = "(construct rt ss (combinator_options ival))\<lparr>listeners := all_listeners\<rparr>"
  let ?w = "tick ?W"
  have f: "fresh_run ?w ss all_listeners"
    by (rule combinator_started(3) [OF ne])
  then have w: "poised ?w" "listeners ?w = all_listeners" "steps ?w = ss" "index ?w = int 0"
    "results ?w = []" "trace ?w = []" "future ?w = FPending"
    by (simp_all add: fresh_run_def)
  note l = all_listener_facts [OF w(2)]
  have "\<exists>w' new tr. event_loop (4 * (k - 0) + 4) ?w = Some w'
           \<and> results w' = results ?w @ new \<and> length new = k - 0 + 1
           \<and> future w' = FRejected (results w') \<and> \<not> running w' \<and> \<not> busy w' \<and> index w' = int k + 1
           \<and> (\<forall>r \<in> set (butlast new). \<exists>s j t. fulfils s \<and> r = result_of s j t)
           \<and> (\<exists>s t. rejects s \<and> last new = result_of s (int k) t)
           \<and> trace w' = trace ?w @ tr
           \<and> (\<forall>j. Invoked j \<in> set tr \<longrightarrow> int 0 \<le> j \<and> j \<le> int k)"
    using assms w(3) by (intro run_until_stop w(1,4,7) l) simp_all
  then obtain w' where
    w': "event_loop (4 * k + 4) ?w = Some w'"
      "length (results w') = k + 1"
      "future w' = FRejected (results w')" "\<not> running w'" "\<not> busy w'" "index w' = int k + 1"
      "\<forall>r \<in> set (butlast (results w')). \<exists>s j t. fulfils s \<and> r = result_of s j t"
      "\<exists>s t. rejects s \<and> last (results w') = result_of s (int k) t"
      "\<forall>j. Invoked j \<in> set (trace w') \<longrightarrow> 0 \<le> j \<and> j \<le> int k"
    unfolding w(5,6) by auto
  have "4 * k + 5 = Suc (4 * k + 4)"
    by simp
  then have "event_loop (4 * k + 5) ?W = Some w'"
    using w'(1) by (simp only: first_tick [OF combinator_started(1,2) [OF ne]])
  moreover have "r_status (last (results w')) = FAILED \<and> r_index (last (results w')) = int k"
    using w'(8) by (auto simp: status_of)
  moreover have "\<forall>r \<in> set (butlast (results w')). r_status r = SUCCEEDED"
    using w'(7) by (auto simp: status_of)
  ultimately show ?thesis
    using all_world [OF ne] w'(2-6,9) by blast
qed

lemma any_first_success:
  assumes "k < length ss" "\<forall>j<k. always_settles rejects (ss ! j)"
      and "always_settles fulfils (ss ! k)"
  shows "\<exists>W w'. any rt ss ival [] = Started W \<and> event_loop (4 * k + 5) W = Some w'
           \<and> future w' = FResolved (results w') \<and> length (results w') = k + 1
           \<and> r_status (last (results w')) = SUCCEEDED \<and> r_index (last (results w')) = int k
           \<and> (\<forall>r \<in> set (butlast (results w')). r_status r = FAILED)
           \<and> \<not> running w' \<and> \<not> busy w' \<and> index w' = int k + 1
           \<and> (\<forall>j. Invoked j \<in> set (trace w') \<longrightarrow> 0 \<le> j \<and> j \<le> int k)"
proof -
  from assms(1) have ne: "ss \<noteq> []" by auto
  let ?W = "(construct rt ss (combinator_options ival))\<lparr>listeners := any_listeners\<rparr>"
  let ?w = "tick ?W"
  have f: "fresh_run ?w ss any_listeners"
    by (rule combinator_started(3) [OF ne])
  then have w: "poised ?w" "listeners ?w = any_listeners" "steps ?w = ss" "index ?w = int 0"
    "results ?w = []" "trace ?w = []" "future ?w = FPending"
    by (simp_all add: fresh_run_def)
  note l = any_listener_facts(1-4) [OF w(2)]
  have "\<exists>w' new tr. event_loop (4 * (k - 0) + 4) ?w = Some w'
           \<and> results w' = results ?w @ new \<and> length new = k - 0 + 1
           \<and> future w' = FResolved (results w') \<and> \<not> running w' \<and> \<not> busy w' \<and> index w' = int k + 1
           \<and> (\<forall>r \<in> set (butlast new). \<exists>s j t. rejects s \<and> r = result_of s j t)
           \<and> (\<exists>s t. fulfils s \<and> last new = result_of s (int k) t)
           \<and> trace w' = trace ?w @ tr
           \<and> (\<forall>j. Invoked j \<in> set tr \<longrightarrow> int 0 \<le> j \<and> j \<le> int k)"
    using assms w(3) by (intro run_until_stop w(1,4,7) l) simp_all
  then obtain w' where
    w': "event_loop (4 * k + 4) ?w = Some w'"
      "length (results w') = k + 1"
      "future w' = FResolved (results w')" "\<not> running w'" "\<not> busy w'" "index w' = int k + 1"
      "\<forall>r \<in> set (butlast (results w')). \<exists>s j t. rejects s \<and> r = result_of s j t"
      "\<exists>s t. fulfils s \<and> last (results w') = result_of s (int k) t"
      "\<forall>j. Invoked j \<in> set (trace w') \<longrightarrow> 0 \<le> j \<and> j \<le> int k"
    unfolding w(5,6) by auto
  have "4 * k + 5 = Suc (4 * k + 4)"
    by simp
  then have "event_loop (4 * k + 5) ?W = Some w'"
    using w'(1) by (simp only: first_tick [OF combinator_started(1,2) [OF ne]])
  moreover have "r_status (last (results w')) = SUCCEEDED \<and> r_index (last (results w')) = int k"
    using w'(8) by (auto simp: status_of)
  moreover have "\<forall>r \<in> set (butlast (results w')). r_status r = FAILED"
    using w'(7) by (auto simp: status_of)
  ultimately show ?thesis
    using any_world [OF ne] w'(2-6,9) by blast
qed

lemma any_all_fail:
  assumes "ss \<noteq> []" "\<forall>j<length ss. always_settles rejects (ss ! j)"
  shows "\<exists>W w'. any rt ss ival [] = Started W \<and> event_loop (4 * length ss + 1) W = Some w'
           \<and> future w' = FRejected (results w') \<and> length (results w') = length ss
           \<and> (\<forall>r \<in> set (results w'). r_status r = FAILED)
           \<and> \<not> busy w' \<and> index w' = int (length ss)
           \<and> last (trace w') = Emitted (End (results w'))"
proof -
  note ne = assms(1)
  let ?W = "(construct rt ss (combinator_options ival))\<lparr>listeners := any_listeners\<rparr>"
  let ?w = "tick ?W"
  have f: "fresh_run ?w ss any_listeners"
    by (rule combinator_started(3) [OF ne])
  then have w: "poised ?w" "listeners ?w = any_listeners" "steps ?w = ss" "index ?w = int 0"
    "results ?w = []" "trace ?w = []" "future ?w = FPending"
    by (simp_all add: fresh_run_def)
  note l = any_listener_facts [OF w(2)]
  have "\<exists>w' new tr. event_loop (4 * (length (steps ?w) - 0)) ?w = Some w'
           \<and> results w' = results ?w @ new \<and> length new = length (steps ?w) - 0
           \<and> running w' = fst (react (reactions (End (results w')) ?w) (results w') (True, future ?w))
           \<and> future w' = snd (react (reactions (End (results w')) ?w) (results w') (True, future ?w))
           \<and> \<not> busy w' \<and> index w' = int (length (steps ?w))
           \<and> (\<forall>r \<in> set new. \<exists>s j t. rejects s \<and> r = result_of s j t)
           \<and> trace w' = trace ?w @ tr @ [Emitted (End (results w'))]
           \<and> (\<forall>rs. Emitted (End rs) \<notin> set tr)"
    using assms w(3) by (intro run_to_end w(1,4) l) simp_all
  then obtain w' where
    w': "event_loop (4 * length ss) ?w = Some w'"
      "length (results w') = length ss"
      "future w' = FRejected (results w')"
      "\<not> busy w'" "index w' = int (length ss)"
      "\<forall>r \<in> set (results w'). \<exists>s j t. rejects s \<and> r = result_of s j t"
      "last (trace w') = Emitted (End (results w'))"
    unfolding w(3,5,6,7) l(5) by auto
  have "4 * length ss + 1 = Suc (4 * length ss)"
    by simp
  then have "event_loop (4 * length ss + 1) ?W = Some w'"
    using w'(1) by (simp only: first_tick [OF combinator_started(1,2) [OF ne]])
  moreover have "\<forall>r \<in> set (results w'). r_status r = FAILED"
    using w'(6) by (auto simp: status_of)
  ultimately show ?thesis
    using any_world [OF ne] w'(2-5,7) by blast
qed

subsection \<open>The combinators\<close>

lemma example_steps_settle:
  "always_settles fulfils (ok_step v)" "always_settles fulfils (slow_step d v)"
  "always_settles rejects (throwing_step e)" "always_settles rejects (rejecting_step d e)"
  by (simp_all add: always_settles_def settles_def example_defs)

text \<open>
  C3. \<^verbatim>\<open>Sequence.all([s1, s2, s3])\<close> with no callback, \<open>s1\<close> a step whose awaitable is
  fulfilled and \<open>s2\<close> one that throws or whose awaitable is rejected (whatever arguments
  they are called with, after whatever delay): the event loop comes to rest within nine jobs,
  the returned promise is rejected with the history, the history has exactly two records, the
  first Succeeded and the second Failed, and the third step was never called. Nothing is
  asked of \<open>s3\<close>. \<^verbatim>\<open>Sequence.all([])\<close> is a promise resolved with the empty history at once.
\<close>

theorem all_rejects_at_failing_second_step:
  assumes "always_settles fulfils s1" "always_settles rejects s2"
  shows "all rt [] ival cb = Immediate (FResolved [])
         \<and> (\<exists>W w'. all rt [s1, s2, s3] ival [] = Started W \<and> event_loop 9 W = Some w'
               \<and> future w' = FRejected (results w') \<and> length (results w') = 2
               \<and> r_status (results w' ! 0) = SUCCEEDED \<and> r_status (results w' ! 1) = FAILED
               \<and> Invoked 2 \<notin> set (trace w') \<and> \<not> running w' \<and> \<not> busy w')"
proof -
  have a: "\<forall>j<1. always_settles fulfils ([s1, s2, s3] ! j)"
    using assms(1) by simp
  from all_first_failure [of 1 "[s1, s2, s3]" rt ival, OF _ a] assms(2)
  obtain W w' where w: "all rt [s1, s2, s3] ival [] = Started W" "event_loop 9 W = Some w'"
    "future w' = FRejected (results w')" "length (results w') = 2"
    "r_status (last (results w')) = FAILED"
    "\<forall>r \<in> set (butlast (results w')). r_status r = SUCCEEDED"
    "\<not> running w'" "\<not> busy w'" "\<forall>j. Invoked j \<in> set (trace w') \<longrightarrow> 0 \<le> j \<and> j \<le> 1"
    by auto
  from w(4) obtain r0 r1 where rs: "results w' = [r0, r1]"
    by (cases "results w'"; cases "tl (results w')") auto
  have "Invoked 2 \<notin> set (trace w')" using w(9) by auto
  then show ?thesis
    using w rs by (auto simp: all_def)
qed

theorem all_rejects_at_failing_second_step_witness:
  "always_settles fulfils (ok_step (Str ''a''))
   \<and> always_settles rejects (rejecting_step 5 (Str ''e''))
   \<and> (\<exists>W w'. all HasNextTick [ok_step (Str ''a''), rejecting_step 5 (Str ''e''), ok_step (Str ''c'')]
                 None [] = Started W
          \<and> event_loop 9 W = Some w' \<and> future w' = FRejected (results w')
          \<and> length (results w') = 2 \<and> Invoked 2 \<notin> set (trace w'))"
proof -
  have h: "always_settles fulfils (ok_step (Str ''a''))"
    "always_settles rejects (rejecting_step 5 (Str ''e''))"
    by (rule example_steps_settle)+
  show ?thesis
    using all_rejects_at_failing_second_step
      [OF h, where rt = HasNextTick and ival = None and ?s3.0 = "ok_step (Str ''c'')"] h
    by blast
qed

text \<open>The same run on concrete steps, evaluated.\<close>

lemma all_example_run:
  "case all HasNextTick [ok_step (Str ''a''), rejecting_step 5 (Str ''e''), ok_step (Str ''c'')] None []
   of Immediate f \<Rightarrow> False
    | Started W \<Rightarrow>
        map_option (\<lambda>w. (future w, trace w)) (event_loop 9 W)
        = Some (FRejected
                 [\<lparr>r_status = 1, r_index = 0, r_value = Some (Str ''a''), r_reason = None, r_time = 0\<rparr>,
                  \<lparr>r_status = 0, r_index = 1, r_value = None, r_reason = Some (Str ''e''), r_time = 5\<rparr>],
                [Invoked 0,
                 Emitted (Success \<lparr>r_status = 1, r_index = 0, r_value = Some (Str ''a''),
                                   r_reason = None, r_time = 0\<rparr> 0),
                 Invoked 1,
                 Emitted (Failed \<lparr>r_status = 0, r_index = 1, r_value = None,
                                  r_reason = Some (Str ''e''), r_time = 5\<rparr> 1)])"
  by code_simp

text \<open>
  C4. \<^verbatim>\<open>Sequence.any([])\<close> is a promise rejected at once. For \<^verbatim>\<open>Sequence.any(ss)\<close> with no
  callback: when the steps before step \<open>k\<close> fail and step \<open>k\<close> succeeds, the event loop comes
  to rest with the returned promise resolved with the history, whose last record is the
  Succeeded record of step \<open>k\<close>; the instance is stopped and no step after \<open>k\<close> was called.
  When every step fails, \<^verbatim>\<open>end\<close> is the last event emitted and the promise is rejected
  with the full history, one Failed record per step.
\<close>

theorem any_resolves_on_first_success_else_rejects:
  "any rt [] ival cb = Immediate (FRejected [])
   \<and> (k < length ss \<and> (\<forall>j<k. always_settles rejects (ss ! j)) \<and> always_settles fulfils (ss ! k)
        \<longrightarrow> (\<exists>W w'. any rt ss ival [] = Started W \<and> event_loop (4 * k + 5) W = Some w'
               \<and> future w' = FResolved (results w') \<and> length (results w') = k + 1
               \<and> r_status (last (results w')) = SUCCEEDED \<and> r_index (last (results w')) = int k
               \<and> \<not> running w' \<and> \<not> busy w'
               \<and> (\<forall>j. Invoked j \<in> set (trace w') \<longrightarrow> j \<le> int k)))
   \<and> (ss \<noteq> [] \<and> (\<forall>j<length ss. always_settles rejects (ss ! j))
        \<longrightarrow> (\<exists>W w'. any rt ss ival [] = Started W \<and> event_loop (4 * length ss + 1) W = Some w'
               \<and> future w' = FRejected (results w') \<and> length (results w') = length ss
               \<and> (\<forall>r \<in> set (results w'). r_status r = FAILED)
               \<and> last (trace w') = Emitted (End (results w'))))"
proof (intro conjI impI)
  show "any rt [] ival cb = Immediate (FRejected [])"
    by (simp add: any_def)
next
  assume "k < length ss \<and> (\<forall>j<k. always_settles rejects (ss ! j)) \<and> always_settles fulfils (ss ! k)"
  then have "k < length ss" "\<forall>j<k. always_settles rejects (ss ! j)" "always_settles fulfils (ss ! k)"
    by simp_all
  from any_first_success [OF this, of rt ival]
  show "\<exists>W w'. any rt ss ival [] = Started W \<and> event_loop (4 * k + 5) W = Some w'
               \<and> future w' = FResolved (results w') \<and> length (results w') = k + 1
               \<and> r_status (last (results w')) = SUCCEEDED \<and> r_index (last (results w')) = int k
               \<and> \<not> running w' \<and> \<not> busy w'
               \<and> (\<forall>j. Invoked j \<in> set (trace w') \<longrightarrow> j \<le> int k)"
    by blast
next
  assume "ss \<noteq> [] \<and> (\<forall>j<length ss. always_settles rejects (ss ! j))"
  then have "ss \<noteq> []" "\<forall>j<length ss. always_settles rejects (ss ! j)"
    by simp_all
  from any_all_fail [OF this, of rt ival]
  show "\<exists>W w'. any rt ss ival [] = Started W \<and> event_loop (4 * length ss + 1) W = Some w'
               \<and> future w' = FRejected (results w') \<and> length (results w') = length ss
               \<and> (\<forall>r \<in> set (results w'). r_status r = FAILED)
               \<and> last (trace w') = Emitted (End (results w'))"
    by blast
qed

theorem any_resolves_on_first_success_else_rejects_witness:
  "(\<exists>W w'. any HasNextTick [rejecting_step 0 (Str ''x''), ok_step (Bool True), ok_step (Num 1)]
              None [] = Started W
       \<and> event_loop 9 W = Some w' \<and> future w' = FResolved (results w')
       \<and> length (results w') = 2 \<and> r_status (last (results w')) = SUCCEEDED
       \<and> Invoked 2 \<notin> set (trace w'))
   \<and> (\<exists>W w'. any HasNextTick [rejecting_step 0 (Str ''x''), throwing_step (Str ''y'')]
              None [] = Started W
       \<and> event_loop 9 W = Some w' \<and> future w' = FRejected (results w')
       \<and> length (results w') = 2)"
proof -
  let ?ss = "[rejecting_step 0 (Str ''x''), ok_step (Bool True), ok_step (Num 1)]"
  let ?ff = "[rejecting_step 0 (Str ''x''), throwing_step (Str ''y'')]"
  have h1: "1 < length ?ss \<and> (\<forall>j<1. always_settles rejects (?ss ! j))
            \<and> always_settles fulfils (?ss ! 1)"
    by (simp add: example_steps_settle)
  have h2: "?ff \<noteq> [] \<and> (\<forall>j<length ?ff. always_settles rejects (?ff ! j))"
    by (simp add: example_steps_settle less_Suc_eq)
  from any_resolves_on_first_success_else_rejects
    [of HasNextTick None "[]" 1 ?ss, THEN conjunct2, THEN conjunct1, THEN mp, OF h1]
  obtain W w' where a: "any HasNextTick ?ss None [] = Started W" "event_loop 9 W = Some w'"
    "future w' = FResolved (results w')" "length (results w') = 2"
    "r_status (last (results w')) = SUCCEEDED" "\<forall>j. Invoked j \<in> set (trace w') \<longrightarrow> j \<le> 1"
    by auto
  from a(6) have "Invoked 2 \<notin> set (trace w')" by auto
  with a have A: "\<exists>W w'. any HasNextTick ?ss None [] = Started W
       \<and> event_loop 9 W = Some w' \<and> future w' = FResolved (results w')
       \<and> length (results w') = 2 \<and> r_status (last (results w')) = SUCCEEDED
       \<and> Invoked 2 \<notin> set (trace w')"
    by blast
  from any_resolves_on_first_success_else_rejects
    [of HasNextTick None "[]" 0 ?ff, THEN conjunct2, THEN conjunct2, THEN mp, OF h2]
  have B: "\<exists>W w'. any HasNextTick ?ff None [] = Started W
       \<and> event_loop 9 W = Some w' \<and> future w' = FRejected (results w')
       \<and> length (results w') = 2"
    by auto
  from A B show ?thesis by blast
qed

lemmas run_defs = idle_def tick_def host_defs method_defs callback_defs setup_defs Let_def
  SUCCEEDED_def FAILED_def

subsection \<open>The empty sequence\<close>

text \<open>
  C5, as amended. A sequence constructed with an empty step list emits nothing before the
  constructor returns. The event loop then comes to rest within four jobs, and what has been
  emitted by then is: nothing when the instance's mute flag is set; otherwise \<^verbatim>\<open>end\<close> with
  the empty history, once (from the notification the constructor deferred) when
  \<^verbatim>\<open>autoRun\<close> is \<^verbatim>\<open>false\<close>, and twice under the default options, the second one from the
  auto-run's first \<^verbatim>\<open>next\<close>, which finds the queue empty (lines 196-200). This holds for
  each of the three deferring primitives of lines 136-144.
\<close>

theorem empty_sequence_end_events:
  "trace (construct rt [] opts) = []
   \<and> map_option trace (event_loop 4 (construct rt [] opts))
       = Some (if muteEndIfEmpty (construct rt [] opts) then []
               else if opt_autoRun opts = Some False then [Emitted (End [])]
               else [Emitted (End []), Emitted (End [])])"
  by (cases rt; cases "opt_autoRun opts = Some False"; cases "opt_emitEndIfEmpty opts = Some True")
     (simp_all add: numeral_eq_Suc run_defs)

text \<open>
  C5 as stated fails: under the default options an empty sequence emits \<^verbatim>\<open>end\<close> twice, not
  exactly once.
\<close>

theorem two_end_events_counterexample:
  "map_option trace (event_loop 4 (construct HasNextTick [] default_options))
     = Some [Emitted (End []), Emitted (End [])]"
  by code_simp

text \<open>
  The constructor takes the mute flag from \<^verbatim>\<open>options.emitEndIfEmpty\<close> (line 115); the option
  \<^verbatim>\<open>muteEndIfEmpty\<close> is not read, so setting it changes nothing.
\<close>

lemma mute_option_is_not_read:
  "construct rt ss (opts\<lparr>opt_muteEndIfEmpty := m\<rparr>) = construct rt ss opts"
  by (simp add: construct_def)

lemma mute_option_example:
  "map_option trace
     (event_loop 4 (construct HasNextTick [] (default_options\<lparr>opt_muteEndIfEmpty := Some True\<rparr>)))
     = Some [Emitted (End []), Emitted (End [])]"
  by code_simp

subsection \<open>Stopping while a step is in flight\<close>

lemma emit_quiet: "listeners w = [] \<Longrightarrow> emit ev w = w\<lparr>trace := trace w @ [Emitted ev]\<rparr>"
  by (simp add: emit_def reactions_def apply_actions_def)

lemma tick_timer:
  "microtasks w = [] \<Longrightarrow> timers w = (due, i, t) # es \<Longrightarrow>
   tick w = exec t (w\<lparr>timers := es, now := max (now w) due\<rparr>)"
  by (simp add: tick_def)

text \<open>
  C6, as amended. Take an instance with a step in flight (busy, the settlement of the step's
  awaitable the only pending job) and no listener, and call \<^verbatim>\<open>stop()\<close>. The call removes no
  job of the step: its operation is not cancelled. When the awaitable settles the result is
  recorded as usual: the record is appended to the history, the per-step event is emitted,
  the cursor advances and busy is cleared (and \<^verbatim>\<open>end\<close> is emitted when that was the last
  step). What \<^verbatim>\<open>stop()\<close> drops is the advancement: the event loop comes to rest within three
  jobs with the instance not running and no further step called.
\<close>

theorem stop_in_flight_still_records:
  assumes "busy w" "microtasks w = []" "waiting w = []" "timers w = [(due, i, Settled q s)]"
      and "suspendTimeout w \<noteq> Some i" "listeners w = []"
  shows "\<exists>w'. event_loop 3 (stop w) = Some w'
           \<and> results w' = results w @ [result_of s (index w) (max (now w) due)]
           \<and> trace w' = trace w
                 @ [Emitted (event_of s (result_of s (index w) (max (now w) due)) (index w))]
                 @ (if nth_step (steps w) (index w + 1) = None
                    then [Emitted (End (results w @ [result_of s (index w) (max (now w) due)]))]
                    else [])
           \<and> index w' = index w + 1 \<and> \<not> busy w' \<and> \<not> running w'
           \<and> microtasks (stop w) = [] \<and> timers (stop w) = [(due, i, Settled q s)]"
proof -
  define a where "a = stop w"
  let ?t = "max (now w) due"
  let ?r = "result_of s (index w) ?t"
  have a: "microtasks a = []" "timers a = [(due, i, Settled q s)]" "\<not> running a"
    "listeners a = []" "waiting a = []" "results a = results w" "index a = index w"
    "steps a = steps w" "trace a = trace w" "now a = now w" "interval a = interval w"
    unfolding a_def using assms
    by (simp_all add: stop_def clearTimeout_def Let_def split: option.split)
  define b where "b = tick a"
  have "b = settled q s (a\<lparr>timers := [], now := max (now a) due\<rparr>)"
    unfolding b_def by (simp add: tick_timer [OF a(1,2)])
  then have b': "b = a\<lparr>timers := [], now := ?t, results := results w @ [?r],
                    trace := trace w @ [Emitted (event_of s ?r (index w))],
                    microtasks := [Finish q ?r]\<rparr>"
    using a by (simp add: settled_def Let_def emit_quiet enqueue_micro_def)
  have b: "microtasks b = [Finish q ?r]" "timers b = []" "\<not> running b"
    "listeners b = []" "waiting b = []" "results b = results w @ [?r]" "index b = index w"
    "steps b = steps w" "trace b = trace w @ [Emitted (event_of s ?r (index w))]"
    "now b = ?t" "interval b = interval w"
    unfolding b' using a by simp_all
  define c where "c = tick b"
  have c0: "c = finish q ?r (b\<lparr>microtasks := []\<rparr>)"
    unfolding c_def by (simp add: tick_micro [OF b(1)])
  have na: "\<not> idle a" using a by (simp add: idle_def)
  have nb: "\<not> idle b" using b by (simp add: idle_def)
  have l: "event_loop 3 a = event_loop 1 c"
    using na nb by (simp add: numeral_3_eq_3 b_def c_def)
  show ?thesis
  proof (cases "nth_step (steps w) (index w + 1) = None")
    case True
    have c: "microtasks c = []" "timers c = []" "results c = results w @ [?r]"
      "index c = index w + 1" "\<not> busy c" "\<not> running c"
      "trace c = trace w @ [Emitted (event_of s ?r (index w)), Emitted (End (results w @ [?r]))]"
      unfolding c0 using b True
      by (simp_all add: finish_def Let_def step_at_def emit_quiet fulfil_def)
    have "idle c" using c by (simp add: idle_def)
    then have "event_loop 3 a = Some c" using l by (simp add: event_loop_idle)
    then show ?thesis
      using c True a(1,2) unfolding a_def by (intro exI [of _ c]) simp
  next
    case False
    then obtain g where g: "nth_step (steps w) (index w + 1) = Some g" by auto
    have c: "microtasks c = []" "\<exists>n. timers c = [(?t + interval w, n, Advance)]"
      "results c = results w @ [?r]"
      "index c = index w + 1" "\<not> busy c" "\<not> running c"
      "trace c = trace w @ [Emitted (event_of s ?r (index w))]"
      unfolding c0 using b g
      by (simp_all add: finish_def Let_def step_at_def setTimeout_def fulfil_def)
    from c(2) obtain n where n: "timers c = [(?t + interval w, n, Advance)]" by blast
    have d: "tick c = c\<lparr>timers := [], now := max (now c) (?t + interval w)\<rparr>"
      by (rule phase4_stopped [OF c(1) n c(6)])
    have "\<not> idle c" using n by (simp add: idle_def)
    then have "event_loop 1 c = event_loop 0 (tick c)" by simp
    also have "\<dots> = Some (tick c)"
      unfolding d using c by (simp add: idle_def)
    finally have "event_loop 3 a = Some (tick c)" using l by simp
    then show ?thesis
      using c False a(1,2) unfolding a_def d by (intro exI [of _ "tick c"]) (simp add: d)
  qed
qed

text \<open>
  C6 as stated fails. Two steps, the first taking 10 ms; \<^verbatim>\<open>stop()\<close> is called at 5 ms, while
  the first step is in flight (after three jobs the instance is busy and not running, its
  history empty). When the event loop has come to rest the history holds the record of that
  step and \<^verbatim>\<open>success\<close> has been emitted for it.
\<close>

lemma stopped_in_flight_after_stop:
  "busy ((tick ^^ 3) stopped_in_flight) \<and> \<not> running ((tick ^^ 3) stopped_in_flight)
   \<and> results ((tick ^^ 3) stopped_in_flight) = []
   \<and> timers ((tick ^^ 3) stopped_in_flight) = [(10, 2, Settled 2 (Fulfil (Str ''x'')))]"
  by (simp add: numeral_eq_Suc stopped_in_flight_def run_defs example_defs)

theorem stop_in_flight_counterexample:
  "map_option (\<lambda>w. (results w, trace w)) (event_loop 7 stopped_in_flight)
   = Some ([\<lparr>r_status = 1, r_index = 0, r_value = Some (Str ''x''), r_reason = None, r_time = 10\<rparr>],
           [Invoked 0,
            Emitted (Success \<lparr>r_status = 1, r_index = 0, r_value = Some (Str ''x''),
                              r_reason = None, r_time = 10\<rparr> 0)])"
  by code_simp

lemma in_flight_example_fields:
  "busy in_flight_example" "running in_flight_example" "microtasks in_flight_example = []"
  "waiting in_flight_example = []"
  "timers in_flight_example = [(10, 1, Settled 2 (Fulfil (Str ''x'')))]"
  "suspendTimeout in_flight_example = None" "listeners in_flight_example = []"
  "results in_flight_example = []" "index in_flight_example = 0" "now in_flight_example = 0"
  by (simp_all add: numeral_eq_Suc in_flight_example_def run_defs example_defs)

theorem stop_in_flight_still_records_witness:
  "busy in_flight_example \<and> running in_flight_example
   \<and> timers in_flight_example = [(10, 1, Settled 2 (Fulfil (Str ''x'')))]
   \<and> map_option results (event_loop 3 (stop in_flight_example))
       = Some [\<lparr>r_status = 1, r_index = 0, r_value = Some (Str ''x''), r_reason = None, r_time = 10\<rparr>]"
proof -
  have h: "busy in_flight_example" "microtasks in_flight_example = []"
    "waiting in_flight_example = []"
    "timers in_flight_example = [(10, 1, Settled 2 (Fulfil (Str ''x'')))]"
    "suspendTimeout in_flight_example \<noteq> Some 1" "listeners in_flight_example = []"
    by (simp_all add: in_flight_example_fields)
  from stop_in_flight_still_records [OF h]
  obtain w' where "event_loop 3 (stop in_flight_example) = Some w'"
    "results w' = results in_flight_example
       @ [result_of (Fulfil (Str ''x'')) (index in_flight_example) (max (now in_flight_example) 10)]"
    by blast
  then show ?thesis
    by (simp add: in_flight_example_fields result_of_def SUCCEEDED_def)
qed

subsection \<open>History and cursor at quiescent points\<close>

lemma filter_insert_timer:
  "length (filter P (insert_timer e ts)) = (if P e then 1 else 0) + length (filter P ts)"
  by (induction ts) auto

lemma count_setTimeout [simp]:
  "count_jobs P (setTimeout t d w) = (if P t then 1 else 0) + count_jobs P w"
  by (simp add: count_jobs_def setTimeout_def filter_insert_timer)

lemma count_enqueue_micro [simp]:
  "count_jobs P (enqueue_micro t w) = (if P t then 1 else 0) + count_jobs P w"
  by (simp add: count_jobs_def enqueue_micro_def)

lemma filter_split_length:
  "length (filter P (filter A xs)) + length (filter P (filter (\<lambda>x. \<not> A x) xs)) = length (filter P xs)"
  by (induction xs) auto

lemma count_fulfil [simp]: "count_jobs P (fulfil q v w) = count_jobs P w"
proof -
  have "length (filter P (map snd (filter (\<lambda>e. fst e = q) (waiting w))))
        = length (filter (\<lambda>e. P (snd e)) (filter (\<lambda>e. fst e = q) (waiting w)))"
    by (simp add: filter_map comp_def)
  moreover have "length (filter (\<lambda>e. P (snd e)) (filter (\<lambda>e. fst e = q) (waiting w)))
        + length (filter (\<lambda>e. P (snd e)) (filter (\<lambda>e. fst e \<noteq> q) (waiting w)))
        = length (filter (\<lambda>e. P (snd e)) (waiting w))"
    by (rule filter_split_length)
  ultimately show ?thesis
    by (simp add: count_jobs_def fulfil_def)
qed

lemma count_clearTimeout:
  assumes "\<forall>e \<in> set (timers w). fst (snd e) = i \<longrightarrow> \<not> P (snd (snd e))"
  shows "count_jobs P (clearTimeout i w) = count_jobs P w"
proof -
  have "filter (\<lambda>e. P (snd (snd e))) (filter (\<lambda>e. fst (snd e) \<noteq> i) (timers w))
        = filter (\<lambda>e. P (snd (snd e))) (timers w)"
    using assms by (induction "timers w") (auto simp: filter_id_conv intro: filter_cong)
  then show ?thesis
    by (simp add: count_jobs_def clearTimeout_def)
qed

lemma count_jobs_cong:
  "microtasks w' = microtasks w \<Longrightarrow> timers w' = timers w \<Longrightarrow> waiting w' = waiting w \<Longrightarrow>
   count_jobs P w' = count_jobs P w"
  by (simp add: count_jobs_def)

lemma tids_cong:
  "timers w' = timers w \<Longrightarrow> next_tid w' = next_tid w \<Longrightarrow> suspendTimeout w' = suspendTimeout w
   \<Longrightarrow> tids_ok w' = tids_ok w"
  by (simp add: tids_ok_def split: option.splits)

lemma tids_setTimeout: "tids_ok w \<Longrightarrow> tids_ok (setTimeout t d w)"
  by (auto simp: tids_ok_def setTimeout_def split: option.splits)

lemma tids_clearTimeout: "tids_ok w \<Longrightarrow> tids_ok (clearTimeout i w)"
  by (auto simp: tids_ok_def clearTimeout_def split: option.splits)

lemma tids_pop:
  "tids_ok w \<Longrightarrow> timers w = e # es \<Longrightarrow> tids_ok (w\<lparr>timers := es, now := t\<rparr>)"
  by (auto simp: tids_ok_def split: option.splits)

lemma steady_refl: "tids_ok w \<Longrightarrow> steady w w"
  by (simp add: steady_def)

lemma steady_trans: "steady w w1 \<Longrightarrow> steady w1 w2 \<Longrightarrow> steady w w2"
  by (auto simp: steady_def)

lemma steady_cong:
  assumes "tids_ok w" "results w' = results w" "index w' = index w" "listeners w' = listeners w"
    "busy w' = busy w" "microtasks w' = microtasks w" "timers w' = timers w"
    "waiting w' = waiting w" "next_tid w' = next_tid w" "suspendTimeout w' = suspendTimeout w"
  shows "steady w w'"
  using assms by (simp add: steady_def tids_cong [of w' w] count_jobs_cong [of w' w])

lemma steady_setTimeout:
  assumes "tids_ok w" "\<not> is_pre t" "\<not> is_post t" "\<not> is_external t"
  shows "steady w (setTimeout t d w)"
  using assms tids_setTimeout [OF assms(1), of t d]
  by (simp add: steady_def) (simp add: setTimeout_def)

lemma steady_then_step:
  assumes "tids_ok w" "\<not> busy w"
  shows "steady w (then_step q (w\<lparr>busy := True\<rparr>))"
proof -
  let ?w' = "then_step q (w\<lparr>busy := True\<rparr>)"
  have t: "tids_ok ?w'"
    using assms(1) by (subst tids_cong [of _ w]) (simp_all add: then_step_def enqueue_micro_def Let_def split: pstate.splits)
  have c: "count_jobs is_pre ?w' \<le> count_jobs is_pre w + 1"
    "count_jobs is_post ?w' = count_jobs is_post w"
    "count_jobs is_external ?w' = count_jobs is_external w"
    by (simp_all add: then_step_def enqueue_micro_def count_jobs_def Let_def split: pstate.splits)
  show ?thesis
    using assms(2) t c by (simp add: steady_def)
qed

lemma steady_next: "tids_ok w \<Longrightarrow> steady w (fst (next b w))"
  unfolding next_def
  by (auto intro!: steady_refl steady_cong steady_setTimeout steady_then_step)

lemma steady_append:
  assumes "tids_ok w"
  shows "steady w (append_steps a w)"
proof -
  let ?w1 = "case a of One f \<Rightarrow> w\<lparr>steps := steps w @ [f]\<rparr> | Many fs \<Rightarrow> w\<lparr>steps := steps w @ fs\<rparr>"
  have 1: "steady w ?w1"
    using assms by (intro steady_cong) (simp_all split: append_arg.splits)
  then have "tids_ok ?w1" by (simp add: steady_def)
  then have 2: "steady ?w1 (fst (next True ?w1))" by (rule steady_next)
  show ?thesis
    using 1 steady_trans [OF 1 2] by (simp add: append_steps_def Let_def)
qed

lemma steady_run:
  assumes "tids_ok w"
  shows "steady w (run w)"
proof -
  let ?w1 = "w\<lparr>running := True\<rparr>"
  have 1: "steady w ?w1"
    using assms by (intro steady_cong) simp_all
  then have "tids_ok ?w1" by (simp add: steady_def)
  then have 2: "steady ?w1 (fst (next True ?w1))" by (rule steady_next)
  show ?thesis
    using steady_refl [OF assms] steady_trans [OF 1 2] by (simp add: run_def)
qed

lemma resume_not_counted:
  assumes "tids_ok w" "suspendTimeout w = Some i"
  shows "\<forall>e \<in> set (timers w). fst (snd e) = i \<longrightarrow> \<not> is_pre (snd (snd e))"
    "\<forall>e \<in> set (timers w). fst (snd e) = i \<longrightarrow> \<not> is_post (snd (snd e))"
    "\<forall>e \<in> set (timers w). fst (snd e) = i \<longrightarrow> \<not> is_external (snd (snd e))"
  using assms by (auto simp: tids_ok_def)

lemma steady_clear_suspend_timer:
  assumes "tids_ok w" "suspendTimeout w = Some i"
  shows "steady w (clearTimeout i w)"
  using assms tids_clearTimeout [OF assms(1), of i]
    count_clearTimeout [OF resume_not_counted(1) [OF assms]]
    count_clearTimeout [OF resume_not_counted(2) [OF assms]]
    count_clearTimeout [OF resume_not_counted(3) [OF assms]]
  by (simp add: steady_def) (simp add: clearTimeout_def)

lemma steady_stop:
  assumes "tids_ok w"
  shows "steady w (stop w)"
proof (cases "suspendTimeout w")
  case None
  then show ?thesis
    using assms by (intro steady_cong) (simp_all add: stop_def)
next
  case (Some i)
  let ?w1 = "clearTimeout i w"
  have 1: "steady w ?w1" by (rule steady_clear_suspend_timer [OF assms Some])
  then have t: "tids_ok ?w1" by (simp add: steady_def)
  have s: "stop w = ?w1\<lparr>running := False, suspendTimeout := None, suspended := False\<rparr>"
    using Some by (simp add: stop_def clearTimeout_def)
  have t2: "tids_ok (stop w)"
    using t unfolding s by (auto simp: tids_ok_def split: option.splits)
  have "count_jobs P (stop w) = count_jobs P ?w1" for P
    unfolding s by (rule count_jobs_cong) simp_all
  then show ?thesis
    using 1 t2 unfolding steady_def by (simp add: s)
qed

lemma tids_suspend_new:
  assumes "tids_ok w"
  shows "tids_ok ((setTimeout Resume d w)\<lparr>suspendTimeout := Some (next_tid w)\<rparr>)"
  using assms by (auto simp: tids_ok_def setTimeout_def split: option.splits)

lemma steady_suspend:
  assumes "tids_ok w"
  shows "steady w (suspend duration w)"
proof -
  define d where "d = (case duration of None \<Rightarrow> 1000 | Some n \<Rightarrow> n)"
  define w2 where "w2 = (case suspendTimeout w of None \<Rightarrow> w\<lparr>suspended := True\<rparr>
                         | Some i \<Rightarrow> clearTimeout i (w\<lparr>suspended := True\<rparr>))"
  have e: "suspend duration w = (setTimeout Resume d w2)\<lparr>suspendTimeout := Some (next_tid w2)\<rparr>"
    by (simp add: suspend_def d_def w2_def Let_def)
  have 0: "steady w (w\<lparr>suspended := True\<rparr>)"
    using assms by (intro steady_cong) simp_all
  then have t0: "tids_ok (w\<lparr>suspended := True\<rparr>)" by (simp add: steady_def)
  have 1: "steady w w2"
  proof (cases "suspendTimeout w")
    case None
    then show ?thesis using 0 by (simp add: w2_def)
  next
    case (Some i)
    have "steady (w\<lparr>suspended := True\<rparr>) (clearTimeout i (w\<lparr>suspended := True\<rparr>))"
      using t0 Some by (intro steady_clear_suspend_timer) simp_all
    then show ?thesis using Some steady_trans [OF 0] by (simp add: w2_def)
  qed
  then have t: "tids_ok w2" by (simp add: steady_def)
  have t2: "tids_ok (suspend duration w)"
    unfolding e by (rule tids_suspend_new [OF t])
  have c: "count_jobs P (suspend duration w) = (if P Resume then 1 else 0) + count_jobs P w2" for P
    unfolding e by (simp add: count_jobs_def setTimeout_def filter_insert_timer)
  have f: "results (suspend duration w) = results w2" "index (suspend duration w) = index w2"
    "listeners (suspend duration w) = listeners w2" "busy (suspend duration w) = busy w2"
    unfolding e by (simp_all add: setTimeout_def)
  show ?thesis
    using 1 t2 c f unfolding steady_def by simp
qed

lemma steady_apply_action:
  assumes "tids_ok w" "calm a"
  shows "steady w (apply_action a w)"
proof (cases a)
  case (Append x)
  then show ?thesis using steady_append [OF assms(1)] by simp
next
  case (Next b)
  then show ?thesis using steady_next [OF assms(1)] by simp
next
  case Run
  then show ?thesis using steady_run [OF assms(1)] by simp
next
  case Stop
  then show ?thesis using steady_stop [OF assms(1)] by simp
next
  case (Suspend d)
  then show ?thesis using steady_suspend [OF assms(1)] by simp
next
  case (Resolve rs)
  then show ?thesis
    using assms(1) by (auto intro!: steady_cong steady_refl simp: settle_future_def)
next
  case ResolveResults
  then show ?thesis
    using assms(1) by (auto intro!: steady_cong steady_refl simp: settle_future_def)
next
  case RejectResults
  then show ?thesis
    using assms(1) by (auto intro!: steady_cong steady_refl simp: settle_future_def)
qed (use assms(2) in simp_all)

lemma steady_apply_actions:
  assumes "tids_ok w" "list_all calm as"
  shows "steady w (apply_actions as w)"
  using assms
proof (induction as arbitrary: w)
  case Nil
  then show ?case by (simp add: apply_actions_def steady_refl)
next
  case (Cons a as)
  have 1: "steady w (apply_action a w)"
    using Cons.prems by (intro steady_apply_action) simp_all
  then have "tids_ok (apply_action a w)" by (simp add: steady_def)
  then have "steady (apply_action a w) (apply_actions as (apply_action a w))"
    using Cons.prems by (intro Cons.IH) simp_all
  from steady_trans [OF 1 this] show ?case
    by (simp add: apply_actions_def)
qed

lemma steady_emit:
  assumes "tids_ok w" "calm_listeners w"
  shows "steady w (emit ev w)"
proof -
  let ?w1 = "w\<lparr>trace := trace w @ [Emitted ev]\<rparr>"
  have 1: "steady w ?w1"
    using assms(1) by (intro steady_cong) simp_all
  then have t: "tids_ok ?w1" by (simp add: steady_def)
  have "list_all calm (reactions ev w)"
    using assms(2) by (auto simp: calm_listeners_def reactions_def list_all_iff)
  from steady_apply_actions [OF t this] steady_trans [OF 1] show ?thesis
    by (simp add: emit_def)
qed

lemma tids_ok_update [simp]:
  "tids_ok (w\<lparr>running := x0\<rparr>) = tids_ok w"
  "tids_ok (w\<lparr>suspended := x1\<rparr>) = tids_ok w"
  "tids_ok (w\<lparr>muteEndIfEmpty := x3\<rparr>) = tids_ok w"
  "tids_ok (w\<lparr>interval := x4\<rparr>) = tids_ok w"
  "tids_ok (w\<lparr>promises := x5\<rparr>) = tids_ok w"
  "tids_ok (w\<lparr>results := x6\<rparr>) = tids_ok w"
  "tids_ok (w\<lparr>index := x7\<rparr>) = tids_ok w"
  "tids_ok (w\<lparr>steps := x8\<rparr>) = tids_ok w"
  "tids_ok (w\<lparr>busy := x9\<rparr>) = tids_ok w"
  "tids_ok (w\<lparr>promise := x10\<rparr>) = tids_ok w"
  "tids_ok (w\<lparr>listeners := x11\<rparr>) = tids_ok w"
  "tids_ok (w\<lparr>env := x12\<rparr>) = tids_ok w"
  "tids_ok (w\<lparr>pstore := x13\<rparr>) = tids_ok w"
  "tids_ok (w\<lparr>next_pid := x14\<rparr>) = tids_ok w"
  "tids_ok (w\<lparr>microtasks := x15\<rparr>) = tids_ok w"
  "tids_ok (w\<lparr>waiting := x16\<rparr>) = tids_ok w"
  "tids_ok (w\<lparr>now := x19\<rparr>) = tids_ok w"
  "tids_ok (w\<lparr>console := x20\<rparr>) = tids_ok w"
  "tids_ok (w\<lparr>trace := x21\<rparr>) = tids_ok w"
  "tids_ok (w\<lparr>future := x22\<rparr>) = tids_ok w"
  by (simp_all add: tids_ok_def split: option.splits)

lemma calm_listeners_update [simp]:
  "calm_listeners (w\<lparr>running := x0\<rparr>) = calm_listeners w"
  "calm_listeners (w\<lparr>suspended := x1\<rparr>) = calm_listeners w"
  "calm_listeners (w\<lparr>suspendTimeout := x2\<rparr>) = calm_listeners w"
  "calm_listeners (w\<lparr>muteEndIfEmpty := x3\<rparr>) = calm_listeners w"
  "calm_listeners (w\<lparr>interval := x4\<rparr>) = calm_listeners w"
  "calm_listeners (w\<lparr>promises := x5\<rparr>) = calm_listeners w"
  "calm_listeners (w\<lparr>results := x6\<rparr>) = calm_listeners w"
  "calm_listeners (w\<lparr>index := x7\<rparr>) = calm_listeners w"
  "calm_listeners (w\<lparr>steps := x8\<rparr>) = calm_listeners w"
  "calm_listeners (w\<lparr>busy := x9\<rparr>) = calm_listeners w"
  "calm_listeners (w\<lparr>promise := x10\<rparr>) = calm_listeners w"
  "calm_listeners (w\<lparr>env := x12\<rparr>) = calm_listeners w"
  "calm_listeners (w\<lparr>pstore := x13\<rparr>) = calm_listeners w"
  "calm_listeners (w\<lparr>next_pid := x14\<rparr>) = calm_listeners w"
  "calm_listeners (w\<lparr>microtasks := x15\<rparr>) = calm_listeners w"
  "calm_listeners (w\<lparr>waiting := x16\<rparr>) = calm_listeners w"
  "calm_listeners (w\<lparr>timers := x17\<rparr>) = calm_listeners w"
  "calm_listeners (w\<lparr>next_tid := x18\<rparr>) = calm_listeners w"
  "calm_listeners (w\<lparr>now := x19\<rparr>) = calm_listeners w"
  "calm_listeners (w\<lparr>console := x20\<rparr>) = calm_listeners w"
  "calm_listeners (w\<lparr>trace := x21\<rparr>) = calm_listeners w"
  "calm_listeners (w\<lparr>future := x22\<rparr>) = calm_listeners w"
  by (simp_all add: calm_listeners_def)

lemma count_jobs_update [simp]:
  "count_jobs P (w\<lparr>running := x0\<rparr>) = count_jobs P w"
  "count_jobs P (w\<lparr>suspended := x1\<rparr>) = count_jobs P w"
  "count_jobs P (w\<lparr>suspendTimeout := x2\<rparr>) = count_jobs P w"
  "count_jobs P (w\<lparr>muteEndIfEmpty := x3\<rparr>) = count_jobs P w"
  "count_jobs P (w\<lparr>interval := x4\<rparr>) = count_jobs P w"
  "count_jobs P (w\<lparr>promises := x5\<rparr>) = count_jobs P w"
  "count_jobs P (w\<lparr>results := x6\<rparr>) = count_jobs P w"
  "count_jobs P (w\<lparr>index := x7\<rparr>) = count_jobs P w"
  "count_jobs P (w\<lparr>steps := x8\<rparr>) = count_jobs P w"
  "count_jobs P (w\<lparr>busy := x9\<rparr>) = count_jobs P w"
  "count_jobs P (w\<lparr>promise := x10\<rparr>) = count_jobs P w"
  "count_jobs P (w\<lparr>listeners := x11\<rparr>) = count_jobs P w"
  "count_jobs P (w\<lparr>env := x12\<rparr>) = count_jobs P w"
  "count_jobs P (w\<lparr>pstore := x13\<rparr>) = count_jobs P w"
  "count_jobs P (w\<lparr>next_pid := x14\<rparr>) = count_jobs P w"
  "count_jobs P (w\<lparr>next_tid := x18\<rparr>) = count_jobs P w"
  "count_jobs P (w\<lparr>now := x19\<rparr>) = count_jobs P w"
  "count_jobs P (w\<lparr>console := x20\<rparr>) = count_jobs P w"
  "count_jobs P (w\<lparr>trace := x21\<rparr>) = count_jobs P w"
  "count_jobs P (w\<lparr>future := x22\<rparr>) = count_jobs P w"
  by (simp_all add: count_jobs_def)

lemma host_frames [simp]:
  "tids_ok (enqueue_micro t w) = tids_ok w" "tids_ok (fulfil q v w) = tids_ok w"
  "calm_listeners (enqueue_micro t w) = calm_listeners w"
  "calm_listeners (fulfil q v w) = calm_listeners w"
  "calm_listeners (setTimeout t d w) = calm_listeners w"
  "busy (enqueue_micro t w) = busy w" "busy (fulfil q v w) = busy w"
  "busy (setTimeout t d w) = busy w"
  "results (enqueue_micro t w) = results w" "results (fulfil q v w) = results w"
  "results (setTimeout t d w) = results w"
  "index (enqueue_micro t w) = index w" "index (fulfil q v w) = index w"
  "index (setTimeout t d w) = index w"
  by (simp_all add: enqueue_micro_def fulfil_def setTimeout_def)

lemma calm_listeners_cong: "listeners w' = listeners w \<Longrightarrow> calm_listeners w' = calm_listeners w"
  by (simp add: calm_listeners_def)

lemma inv_steady:
  assumes "consistent w" "steady w w'"
  shows "consistent w'"
proof -
  have l: "calm_listeners w'"
    using assms by (simp add: consistent_def steady_def calm_listeners_cong [of w' w])
  have "shape w'"
    using assms unfolding consistent_def steady_def shape_def by (auto split: if_splits)
  then show ?thesis
    using assms l by (simp add: consistent_def steady_def)
qed

lemma inv_tids: "consistent w \<Longrightarrow> tids_ok w"
  by (simp add: consistent_def)

lemma ready_inv: "ready t w \<Longrightarrow> \<not> is_pre t \<Longrightarrow> \<not> is_post t \<Longrightarrow> consistent w"
  by (simp add: ready_def consistent_def)

lemma inv_invoke:
  assumes "ready (StepTask q) w"
  shows "consistent (invoke q w)"
proof -
  have r: "tids_ok w" "calm_listeners w" "count_jobs is_external w = 0" "busy w"
    "count_jobs is_pre w = 0" "count_jobs is_post w = 0" "int (length (results w)) = index w"
    using assms by (simp_all add: ready_def)
  let ?w1 = "w\<lparr>trace := trace w @ [Invoked (index w)]\<rparr>"
  have k: "consistent (enqueue_micro (Settled q s) w)" for s
    using r by (simp add: consistent_def shape_def)
  have k1: "consistent (enqueue_micro (Settled q s) ?w1)" for s
    using r by (simp add: consistent_def shape_def)
  have k2: "consistent (setTimeout (Settled q s) d ?w1)" for s d
    using r tids_setTimeout [of ?w1 "Settled q s" d] by (simp add: consistent_def shape_def)
  have k3: "consistent ?w1"
    using r by (simp add: consistent_def shape_def)
  show ?thesis
    using k k1 k2 k3 by (simp add: invoke_def Let_def split: option.splits outcome.splits)
qed

lemma inv_settled:
  assumes "ready (Settled q s) w"
  shows "consistent (settled q s w)"
proof -
  have r: "tids_ok w" "calm_listeners w" "count_jobs is_external w = 0" "busy w"
    "count_jobs is_pre w = 0" "count_jobs is_post w = 0" "int (length (results w)) = index w"
    using assms by (simp_all add: ready_def)
  let ?r = "result_of s (index w) (now w)"
  let ?w1 = "w\<lparr>results := results w @ [?r]\<rparr>"
  let ?w2 = "emit (event_of s ?r (index w)) ?w1"
  have "steady ?w1 ?w2"
    using r by (intro steady_emit) simp_all
  then have w2: "tids_ok ?w2" "calm_listeners ?w2" "count_jobs is_external ?w2 = 0" "busy ?w2"
    "count_jobs is_pre ?w2 = 0" "count_jobs is_post ?w2 = 0"
    "int (length (results ?w2)) = index ?w2 + 1"
    using r by (auto simp: steady_def calm_listeners_cong [of ?w2 ?w1])
  have "consistent (enqueue_micro (Finish q ?r) ?w2)"
    using w2 by (simp add: consistent_def shape_def)
  then show ?thesis by (simp add: settled_def Let_def)
qed

lemma inv_finish:
  assumes "ready (Finish q r) w"
  shows "consistent (finish q r w)"
proof -
  have r: "tids_ok w" "calm_listeners w" "count_jobs is_external w = 0" "busy w"
    "count_jobs is_pre w = 0" "count_jobs is_post w = 0" "int (length (results w)) = index w + 1"
    using assms by (simp_all add: ready_def)
  let ?w1 = "w\<lparr>index := index w + 1, busy := False\<rparr>"
  have i1: "consistent ?w1"
    using r by (simp add: consistent_def shape_def)
  define w2 where "w2 = (if step_at ?w1 = None then emit (End (results ?w1)) ?w1
             else setTimeout Advance (interval ?w1) ?w1)"
  have "steady ?w1 w2"
    unfolding w2_def using steady_emit [of ?w1] steady_setTimeout [of ?w1 Advance] r by simp
  from inv_steady [OF i1 this] have i2: "consistent w2" .
  have "consistent (fulfil q (Some r) w2)"
    using i2 by (auto simp: consistent_def shape_def split: if_splits)
  then show ?thesis by (simp add: finish_def Let_def w2_def)
qed

lemma inv_advance: "consistent w \<Longrightarrow> consistent (advance w)"
  using inv_steady [OF _ steady_next [OF inv_tids]] by (simp add: advance_def)

lemma inv_resume:
  assumes "consistent w"
  shows "consistent (resume w)"
proof -
  have "steady w (w\<lparr>suspended := False\<rparr>)"
    using inv_tids [OF assms] by (intro steady_cong) simp_all
  from inv_advance [OF inv_steady [OF assms this]] show ?thesis
    by (simp add: resume_def)
qed

lemma inv_exec:
  assumes "ready t w"
  shows "consistent (exec t w)"
proof (cases t)
  case EmitEnd
  then have i: "consistent w" using assms by (intro ready_inv [of t]) simp_all
  then show ?thesis
    using EmitEnd inv_steady [OF i steady_emit] by (simp add: consistent_def)
next
  case AutoRun
  then have i: "consistent w" using assms by (intro ready_inv [of t]) simp_all
  then show ?thesis
    using AutoRun inv_steady [OF i steady_run] by (simp add: consistent_def)
next
  case (StepTask q)
  then show ?thesis using assms inv_invoke by simp
next
  case (Settled q s)
  then show ?thesis using assms inv_settled by simp
next
  case (Finish q r)
  then show ?thesis using assms inv_finish by simp
next
  case Advance
  then have i: "consistent w" using assms by (intro ready_inv [of t]) simp_all
  then show ?thesis using Advance inv_advance by simp
next
  case Resume
  then have i: "consistent w" using assms by (intro ready_inv [of t]) simp_all
  then show ?thesis using Resume inv_resume by simp
next
  case (External a)
  then show ?thesis using assms by (simp add: ready_def)
qed

lemma not_pre_and_post: "is_pre t \<Longrightarrow> \<not> is_post t"
  by (cases t) simp_all

lemma ready_pop_micro:
  assumes "consistent w" "microtasks w = t # ts"
  shows "ready t (w\<lparr>microtasks := ts\<rparr>)"
proof -
  have c: "count_jobs P w = (if P t then 1 else 0) + count_jobs P (w\<lparr>microtasks := ts\<rparr>)" for P
    using assms(2) by (simp add: count_jobs_def)
  have e: "\<not> is_external t"
    using assms c [of is_external] by (auto simp: consistent_def split: if_splits)
  have s: "shape w" "tids_ok w" "calm_listeners w" "count_jobs is_external w = 0"
    using assms(1) by (simp_all add: consistent_def)
  show ?thesis
    using s e c [of is_pre] c [of is_post] c [of is_external] not_pre_and_post [of t]
    by (auto simp: ready_def shape_def split: if_splits)
qed

lemma ready_pop_timer:
  assumes "consistent w" "timers w = e # es"
  shows "ready (snd (snd e)) (w\<lparr>timers := es, now := n\<rparr>)"
proof -
  let ?t = "snd (snd e)"
  let ?w = "w\<lparr>timers := es, now := n\<rparr>"
  have c: "count_jobs P w = (if P ?t then 1 else 0) + count_jobs P ?w" for P
    using assms(2) by (simp add: count_jobs_def)
  have x: "\<not> is_external ?t"
    using assms c [of is_external] by (auto simp: consistent_def split: if_splits)
  have s: "shape w" "tids_ok w" "calm_listeners w" "count_jobs is_external w = 0"
    using assms(1) by (simp_all add: consistent_def)
  have t: "tids_ok ?w" using tids_pop [OF s(2) assms(2)] .
  have l: "calm_listeners ?w" using s(3) by (simp add: calm_listeners_def)
  have f: "busy ?w = busy w" "results ?w = results w" "index ?w = index w" by simp_all
  show ?thesis
    unfolding ready_def f
    using s t l x c [of is_pre] c [of is_post] c [of is_external] not_pre_and_post [of ?t]
    by (auto simp: shape_def split: if_splits)
qed

lemma inv_tick:
  assumes "consistent w"
  shows "consistent (tick w)"
proof (cases "microtasks w")
  case (Cons t ts)
  then show ?thesis
    using inv_exec [OF ready_pop_micro [OF assms Cons]] by (simp add: tick_def)
next
  case Nil
  show ?thesis
  proof (cases "timers w")
    case Nil': Nil
    then show ?thesis using assms Nil by (simp add: tick_def)
  next
    case (Cons e es)
    then show ?thesis
      using inv_exec [OF ready_pop_timer [OF assms Cons]] Nil by (simp add: tick_def)
  qed
qed

lemma inv_createConfig:
  assumes "tids_ok w" "calm_listeners w" "count_jobs P w = 0" "count_jobs is_external w = 0"
    "count_jobs is_pre w = 0" "count_jobs is_post w = 0"
  shows "consistent (createConfig w)"
  using assms by (simp add: consistent_def shape_def createConfig_def)

lemma inv_clear:
  assumes "consistent w" "\<not> busy w"
  shows "consistent (clear w)"
  using assms by (auto simp: consistent_def shape_def clear_def createConfig_def)

lemma inv_on:
  assumes "consistent w" "\<forall>ev. list_all calm (l ev)"
  shows "consistent (on n l w)"
proof -
  have "calm_listeners (on n l w)"
    using assms by (auto simp: consistent_def calm_listeners_def on_def)
  moreover have "shape (on n l w) = shape w"
    by (simp add: shape_def on_def)
  ultimately show ?thesis
    using assms(1) by (simp add: consistent_def) (simp add: on_def)
qed

lemma inv_call:
  assumes "consistent w" "calm a"
  shows "consistent (apply_action a w)"
  using inv_steady [OF assms(1) steady_apply_action [OF inv_tids [OF assms(1)] assms(2)]] .

lemma inv_construct: "consistent (construct rt ss opts)"
proof -
  define w0 where "w0 = createConfig
                 ((blank rt)\<lparr>running := False, suspended := False, suspendTimeout := None,
                    muteEndIfEmpty := (opt_emitEndIfEmpty opts = Some True),
                    interval := (case opt_interval opts of None \<Rightarrow> 0 | Some n \<Rightarrow> n)\<rparr>)"
  define w1 where "w1 = (if ss \<noteq> [] then append_steps (Many ss) w0
                else if \<not> muteEndIfEmpty w0 then scheduleEndEvent w0
                else w0)"
  have i0: "consistent w0"
    by (simp add: w0_def consistent_def shape_def createConfig_def blank_def count_jobs_def tids_ok_def
        calm_listeners_def)
  have s: "steady w0 (scheduleEndEvent w0)"
    using inv_tids [OF i0]
    by (cases "env w0")
      (simp_all add: scheduleEndEvent_def steady_def tids_setTimeout,
       simp_all add: enqueue_micro_def setTimeout_def)
  have "steady w0 w1"
    unfolding w1_def using steady_append [OF inv_tids [OF i0]] s steady_refl [OF inv_tids [OF i0]]
    by simp
  from inv_steady [OF i0 this] have i1: "consistent w1" .
  have "consistent (setTimeout AutoRun 0 w1)"
    using inv_steady [OF i1 steady_setTimeout] inv_tids [OF i1] by simp
  then show ?thesis
    using i1 by (simp add: construct_def Let_def w0_def [symmetric] w1_def [symmetric])
qed

lemma reachable_inv: "reachable w \<Longrightarrow> consistent w"
proof (induction rule: reachable.induct)
  case (constructed rt ss opts)
  show ?case by (rule inv_construct)
next
  case (listening w l n)
  then show ?case by (intro inv_on)
next
  case (job w)
  then show ?case by (intro inv_tick)
next
  case (call w a)
  then show ?case by (intro inv_call)
next
  case (cleared w)
  then show ?case by (intro inv_clear)
qed

text \<open>
  C1, as amended. A world is \<open>reachable\<close> when it comes from the constructor by event-loop
  jobs, by registering listeners, by calls of \<^verbatim>\<open>append\<close>, \<^verbatim>\<open>next\<close>, \<^verbatim>\<open>run\<close>, \<^verbatim>\<open>stop\<close> and
  \<^verbatim>\<open>suspend\<close> (from outside or from a listener), and by calls of \<^verbatim>\<open>clear\<close> made while no
  step is in flight; \<^verbatim>\<open>go\<close> is never called. In every such world where \<open>busy\<close> is false the
  history is as long as the cursor, and while a step is in flight it is as long as the
  cursor or one longer. Right after \<^verbatim>\<open>clear()\<close>, whenever it is called, both are zero and
  \<open>busy\<close> is false.
\<close>

theorem quiescent_history_matches_cursor:
  "(reachable w \<longrightarrow> \<not> busy w \<longrightarrow> int (length (results w)) = index w)
   \<and> (reachable w \<longrightarrow> busy w \<longrightarrow>
        int (length (results w)) = index w \<or> int (length (results w)) = index w + 1)
   \<and> results (clear w) = [] \<and> index (clear w) = 0 \<and> \<not> busy (clear w)"
proof -
  have "reachable w \<Longrightarrow> shape w"
    using reachable_inv [of w] by (simp add: consistent_def)
  then show ?thesis
    by (auto simp: shape_def clear_def createConfig_def split: if_splits)
qed

theorem quiescent_history_matches_cursor_witness:
  "reachable (tick (tick (tick (apply_action Run
      (on OnSuccess (\<lambda>ev. [Suspend (Some 5)])
        (construct HasNextTick [ok_step (Str ''a'')] default_options))))))
   \<and> \<not> busy (tick (tick (tick (apply_action Run
      (on OnSuccess (\<lambda>ev. [Suspend (Some 5)])
        (construct HasNextTick [ok_step (Str ''a'')] default_options))))))
   \<and> index (tick (tick (tick (apply_action Run
      (on OnSuccess (\<lambda>ev. [Suspend (Some 5)])
        (construct HasNextTick [ok_step (Str ''a'')] default_options)))))) = 1
   \<and> length (results (tick (tick (tick (apply_action Run
      (on OnSuccess (\<lambda>ev. [Suspend (Some 5)])
        (construct HasNextTick [ok_step (Str ''a'')] default_options))))))) = 1"
proof -
  let ?w = "tick (tick (tick (apply_action Run
      (on OnSuccess (\<lambda>ev. [Suspend (Some 5)])
        (construct HasNextTick [ok_step (Str ''a'')] default_options)))))"
  have r: "reachable ?w"
    by (intro reachable.job reachable.call reachable.listening reachable.constructed) simp_all
  have b: "\<not> busy ?w" by code_simp
  have i: "index ?w = 1" by code_simp
  from quiescent_history_matches_cursor [of ?w, THEN conjunct1, THEN mp, OF r, THEN mp, OF b]
  show ?thesis using r b i by simp
qed

text \<open>
  C1 as stated fails for \<^verbatim>\<open>go\<close>: once a one-step sequence has run to its end, \<^verbatim>\<open>go(0)\<close>
  rewinds the cursor to 0 and leaves the one record in the history, with no step in flight.
\<close>

theorem go_rewind_keeps_history_counterexample:
  "map_option (\<lambda>w. (busy (go (Some 0) w), length (results (go (Some 0) w)), index (go (Some 0) w)))
     (event_loop 5 (construct HasNextTick [ok_step (Str ''a'')] default_options))
   = Some (False, 1, 0)"
  by code_simp

end
